theory Spec2Isabelle
  imports Main "HOL-Library.AList"
begin

section \<open>The claimable-capital cache provider\<close>

text \<open>
  The provider (\<^verbatim>\<open>claimable-capital-cache.provider.tsx\<close>) keeps a JavaScript
  \<^verbatim>\<open>Map<string, CachedRedeemableCapital>\<close>, a \<^verbatim>\<open>Set<string>\<close> of loading
  bonds and a \<^verbatim>\<open>Map<string, Promise>\<close> of in-flight requests.

  A JavaScript \<^verbatim>\<open>Map\<close> iterates in insertion order, and the eviction scan of
  \<^verbatim>\<open>setCachedValue\<close> depends on that order, so the cache is an association list:
  \<^verbatim>\<open>get\<close> is \<^const>\<open>map_of\<close>, \<^verbatim>\<open>set\<close> is \<^const>\<open>AList.update\<close> (an existing key keeps
  its place, a new key goes last), \<^verbatim>\<open>delete\<close> is \<^const>\<open>AList.delete\<close> and
  \<^verbatim>\<open>size\<close> is \<^const>\<open>length\<close>. The keys of a \<^verbatim>\<open>Map\<close> are unique: the lists that stand
  for one satisfy \<open>distinct (map fst c)\<close>.

  \<^verbatim>\<open>Date.now()\<close> is a parameter. A function that reads the clock during one
  call takes the reading \<open>now\<close> (\<^verbatim>\<open>setCachedValue\<close> reads it twice in one run of
  its updater, for the scan and for the timestamp: both are \<open>now\<close>). A loop whose
  callback reads the clock for every element takes \<open>clk\<close>, where \<open>clk i\<close> is the
  reading during the \<open>i\<close>-th iteration; nothing is assumed of \<open>clk\<close>.

  The state \<^verbatim>\<open>cache\<close> and the ref \<^verbatim>\<open>cacheRef.current\<close>, which every updater
  assigns together, are one field. React runs an updater passed to \<^verbatim>\<open>setCache\<close> or
  \<^verbatim>\<open>setLoadingBonds\<close> after the synchronous code that passed it has ended, and runs
  the updaters in the order in which they were passed. A function of the provider
  stands for the state after its updaters have run, and \<^verbatim>\<open>isLoading\<close> reads the set
  of that state. Code that passes an updater and then reads \<^verbatim>\<open>cacheRef.current\<close> in
  the same run reads the cache from before the updater; \<^verbatim>\<open>retryFailedFetches\<close> is
  the one function that does so. The in-flight map is a ref that is written at once.
  Timestamps, \<^verbatim>\<open>ttl\<close> and \<^verbatim>\<open>maxSize\<close> are integers.
\<close>

record CachedRedeemableCapital =
  value' :: string
  timestamp :: int
  error :: "string option"

text \<open>
  The field \<^verbatim>\<open>value\<close> is \<open>value'\<close>. The options \<^verbatim>\<open>ttl\<close> and \<^verbatim>\<open>maxSize\<close> are
  parameters of the functions that read them.
\<close>

type_synonym cacheMap = "(string \<times> CachedRedeemableCapital) list"

record providerState =
  cache :: cacheMap
  loadingBonds :: "string set"
  inflightRequests :: "string \<rightharpoonup> nat"
  calls :: "string list list"

text \<open>
  \<open>calls\<close> is not a field of the provider: it records the arguments of every call of
  \<^verbatim>\<open>BondService.getClaimablePrincipalForBonds\<close>, in order. The promise of the
  \<open>n\<close>-th call is the handle \<open>n\<close>.
\<close>

text \<open>The provider as it is mounted: empty maps, an empty set, no call made.\<close>

definition initialState :: providerState where
  "initialState = \<lparr>cache = [], loadingBonds = {}, inflightRequests = Map.empty, calls = []\<rparr>"

definition isEntryValid :: "int \<Rightarrow> int \<Rightarrow> CachedRedeemableCapital \<Rightarrow> bool" where
  "isEntryValid ttl now entry = (now - timestamp entry < ttl)"

text \<open>
  \<^verbatim>\<open>getCachedValue\<close> reads \<^verbatim>\<open>cacheRef.current\<close> and writes nothing: the state it
  returns is the state it was given.
\<close>

definition getCachedValue ::
  "int \<Rightarrow> int \<Rightarrow> string \<Rightarrow> providerState \<Rightarrow> CachedRedeemableCapital option \<times> providerState" where
  "getCachedValue ttl now bondId s =
     (case map_of (cache s) bondId of
        Some entry \<Rightarrow> if isEntryValid ttl now entry then Some entry else None
      | None \<Rightarrow> None,
      s)"

definition hasCachedValue :: "int \<Rightarrow> int \<Rightarrow> string \<Rightarrow> providerState \<Rightarrow> bool" where
  "hasCachedValue ttl now bondId s = (fst (getCachedValue ttl now bondId s) \<noteq> None)"

text \<open>
  The scan of \<^verbatim>\<open>setCachedValue\<close>: \<^verbatim>\<open>oldestKey\<close> starts as \<^verbatim>\<open>null\<close> and
  \<^verbatim>\<open>oldestTimestamp\<close> as \<^verbatim>\<open>Date.now()\<close>; an entry replaces them when its timestamp
  is strictly smaller.
\<close>

fun oldestScan :: "cacheMap \<Rightarrow> string option \<times> int \<Rightarrow> string option \<times> int" where
  "oldestScan [] acc = acc"
| "oldestScan ((key, entry) # rest) (oldestKey, oldestTimestamp) =
     (if timestamp entry < oldestTimestamp
      then oldestScan rest (Some key, timestamp entry)
      else oldestScan rest (oldestKey, oldestTimestamp))"

text \<open>
  \<^verbatim>\<open>if (oldestKey)\<close> tests truthiness: \<^verbatim>\<open>null\<close> and the empty string are both
  falsy, and nothing is deleted for them.
\<close>

definition evictOldest :: "int \<Rightarrow> cacheMap \<Rightarrow> cacheMap" where
  "evictOldest now newCache =
     (case fst (oldestScan newCache (None, now)) of
        None \<Rightarrow> newCache
      | Some oldestKey \<Rightarrow>
          if oldestKey \<noteq> [] then AList.delete oldestKey newCache else newCache)"

definition setCachedValue_updater ::
  "int \<Rightarrow> int \<Rightarrow> string \<Rightarrow> string \<Rightarrow> string option \<Rightarrow> cacheMap \<Rightarrow> cacheMap" where
  "setCachedValue_updater maxSize now bondId v err prevCache =
     (let newCache = prevCache;
          newCache = (if maxSize \<le> int (length newCache) then evictOldest now newCache
                      else newCache)
      in AList.update bondId \<lparr>value' = v, timestamp = now, error = err\<rparr> newCache)"

definition setCachedValue ::
  "int \<Rightarrow> int \<Rightarrow> string \<Rightarrow> string \<Rightarrow> string option \<Rightarrow> providerState \<Rightarrow> providerState" where
  "setCachedValue maxSize now bondId v err s =
     s\<lparr>cache := setCachedValue_updater maxSize now bondId v err (cache s)\<rparr>"

definition clearCache :: "providerState \<Rightarrow> providerState" where
  "clearCache s = s\<lparr>cache := [], loadingBonds := {}, inflightRequests := Map.empty\<rparr>"

text \<open>
  \<^verbatim>\<open>clearCacheEntry\<close> passes two updaters, one to \<^verbatim>\<open>setCache\<close> and one to
  \<^verbatim>\<open>setLoadingBonds\<close>.
\<close>

definition clearCacheEntry_updater :: "string \<Rightarrow> cacheMap \<Rightarrow> cacheMap" where
  "clearCacheEntry_updater bondId prevCache = AList.delete bondId prevCache"

definition clearLoading_updater :: "string \<Rightarrow> string set \<Rightarrow> string set" where
  "clearLoading_updater bondId prev = prev - {bondId}"

definition clearCacheEntry :: "string \<Rightarrow> providerState \<Rightarrow> providerState" where
  "clearCacheEntry bondId s =
     s\<lparr>cache := clearCacheEntry_updater bondId (cache s),
       loadingBonds := clearLoading_updater bondId (loadingBonds s)\<rparr>"

text \<open>
  An updater passed to \<^verbatim>\<open>setCache\<close> returns either the object it was given
  (\<^verbatim>\<open>return prevCache\<close>: React compares with \<^verbatim>\<open>Object.is\<close> and publishes no
  update) or a new \<^verbatim>\<open>Map\<close>, which is published whatever it holds.
\<close>

datatype 'a updaterResult = ReturnPrev | ReturnNew 'a

fun publish :: "cacheMap updaterResult \<Rightarrow> providerState \<Rightarrow> providerState" where
  "publish ReturnPrev s = s"
| "publish (ReturnNew newCache) s = s\<lparr>cache := newCache\<rparr>"

text \<open>
  The loop of the \<^verbatim>\<open>setInterval\<close> callback: \<^verbatim>\<open>newCache\<close> and
  \<^verbatim>\<open>hasExpiredEntries\<close> are its two variables.
\<close>

fun cleanupLoop ::
  "int \<Rightarrow> (nat \<Rightarrow> int) \<Rightarrow> nat \<Rightarrow> cacheMap \<Rightarrow> cacheMap \<times> bool \<Rightarrow> cacheMap \<times> bool" where
  "cleanupLoop ttl clk i [] acc = acc"
| "cleanupLoop ttl clk i ((bondId, entry) # rest) (newCache, hasExpiredEntries) =
     (if clk i - timestamp entry < ttl
      then cleanupLoop ttl clk (Suc i) rest (AList.update bondId entry newCache, hasExpiredEntries)
      else cleanupLoop ttl clk (Suc i) rest (newCache, True))"

definition cleanupInterval_updater ::
  "int \<Rightarrow> (nat \<Rightarrow> int) \<Rightarrow> cacheMap \<Rightarrow> cacheMap updaterResult" where
  "cleanupInterval_updater ttl clk prevCache =
     (case cleanupLoop ttl clk 0 prevCache ([], False) of
        (newCache, hasExpiredEntries) \<Rightarrow>
          if hasExpiredEntries then ReturnNew newCache else ReturnPrev)"

definition cleanupInterval :: "int \<Rightarrow> (nat \<Rightarrow> int) \<Rightarrow> providerState \<Rightarrow> providerState" where
  "cleanupInterval ttl clk s = publish (cleanupInterval_updater ttl clk (cache s)) s"

text \<open>The loop of \<^verbatim>\<open>cleanExpiredEntries\<close>, which keeps no flag.\<close>

fun cleanExpiredLoop :: "int \<Rightarrow> (nat \<Rightarrow> int) \<Rightarrow> nat \<Rightarrow> cacheMap \<Rightarrow> cacheMap \<Rightarrow> cacheMap" where
  "cleanExpiredLoop ttl clk i [] newCache = newCache"
| "cleanExpiredLoop ttl clk i ((bondId, entry) # rest) newCache =
     (if isEntryValid ttl (clk i) entry
      then cleanExpiredLoop ttl clk (Suc i) rest (AList.update bondId entry newCache)
      else cleanExpiredLoop ttl clk (Suc i) rest newCache)"

definition cleanExpiredEntries_updater ::
  "int \<Rightarrow> (nat \<Rightarrow> int) \<Rightarrow> cacheMap \<Rightarrow> cacheMap updaterResult" where
  "cleanExpiredEntries_updater ttl clk prevCache =
     ReturnNew (cleanExpiredLoop ttl clk 0 prevCache [])"

definition cleanExpiredEntries :: "int \<Rightarrow> (nat \<Rightarrow> int) \<Rightarrow> providerState \<Rightarrow> providerState" where
  "cleanExpiredEntries ttl clk s = publish (cleanExpiredEntries_updater ttl clk (cache s)) s"

definition setLoadingState :: "string \<Rightarrow> bool \<Rightarrow> providerState \<Rightarrow> providerState" where
  "setLoadingState bondId loading s =
     s\<lparr>loadingBonds :=
         (if loading then insert bondId (loadingBonds s) else loadingBonds s - {bondId})\<rparr>"


definition getInflightRequest :: "string \<Rightarrow> providerState \<Rightarrow> nat option" where
  "getInflightRequest bondId s = inflightRequests s bondId"

text \<open>
  \<^verbatim>\<open>setInflightRequest\<close> stores the promise and registers a \<^verbatim>\<open>finally\<close> callback;
  the callback is \<open>inflightCleanup\<close>, run by \<open>settle\<close> below when the promise settles.
  It deletes the key whatever promise is stored under it by then.
\<close>

definition setInflightRequest :: "string \<Rightarrow> nat \<Rightarrow> providerState \<Rightarrow> providerState" where
  "setInflightRequest bondId promise s =
     s\<lparr>inflightRequests := (inflightRequests s)(bondId \<mapsto> promise)\<rparr>"

definition inflightCleanup :: "string \<Rightarrow> providerState \<Rightarrow> providerState" where
  "inflightCleanup bondId s = s\<lparr>inflightRequests := (inflightRequests s)(bondId := None)\<rparr>"

definition hasInflightRequest :: "string \<Rightarrow> providerState \<Rightarrow> bool" where
  "hasInflightRequest bondId s = (inflightRequests s bondId \<noteq> None)"

section \<open>The batch fetch of the asset-operations hook\<close>

text \<open>
  Of a \<^verbatim>\<open>BondingStatus\<close> the hook reads the field \<^verbatim>\<open>id\<close> only (\<open>asset_id\<close>
  here: \<open>id\<close> is the identity function of HOL). \<open>fetchError\<close> is the field
  \<^verbatim>\<open>error\<close> of a \<^verbatim>\<open>LazyClaimablePrincipalResult\<close>.
\<close>

record BondingStatus =
  asset_id :: string

record LazyClaimablePrincipalResult =
  bondId :: string
  claimableAmount :: string
  fetchError :: "string option"

text \<open>
  A \<^verbatim>\<open>forEach\<close> whose callback reads the clock: the callback of the \<open>i\<close>-th
  element runs at the reading \<open>clk i\<close>.
\<close>

fun forEachAt :: "(nat \<Rightarrow> 'a \<Rightarrow> 's \<Rightarrow> 's) \<Rightarrow> nat \<Rightarrow> 'a list \<Rightarrow> 's \<Rightarrow> 's" where
  "forEachAt f i [] s = s"
| "forEachAt f i (x # xs) s = forEachAt f (Suc i) xs (f i x s)"

fun filterAt :: "(nat \<Rightarrow> 'a \<Rightarrow> bool) \<Rightarrow> nat \<Rightarrow> 'a list \<Rightarrow> 'a list" where
  "filterAt P i [] = []"
| "filterAt P i (x # xs) = (if P i x then x # filterAt P (Suc i) xs else filterAt P (Suc i) xs)"

definition assetsNeedingFetch ::
  "int \<Rightarrow> (nat \<Rightarrow> int) \<Rightarrow> 'a BondingStatus_scheme list \<Rightarrow> providerState
     \<Rightarrow> 'a BondingStatus_scheme list" where
  "assetsNeedingFetch ttl clk assets s =
     filterAt (\<lambda>i asset. \<not> hasCachedValue ttl (clk i) (asset_id asset) s
                         \<and> \<not> hasInflightRequest (asset_id asset) s) 0 assets"

text \<open>
  What \<^verbatim>\<open>fetchClaimableCapital\<close> is suspended on when its synchronous part ends:
  nothing (it has returned), \<^verbatim>\<open>Promise.allSettled\<close> of the handles of the waiting
  assets, or its own \<^verbatim>\<open>operationPromise\<close>.
\<close>

datatype awaiting = Returned | AwaitAllSettled "nat option list" | AwaitOperation nat

text \<open>
  The synchronous part, up to the first \<^verbatim>\<open>await\<close>. The async function inside it
  calls \<^verbatim>\<open>BondService.getClaimablePrincipalForBonds(assetIds)\<close> before it suspends, so
  the call is issued here, between the loading flags and the in-flight registrations.
\<close>

definition fetchClaimableCapital_begin ::
  "int \<Rightarrow> (nat \<Rightarrow> int) \<Rightarrow> 'a BondingStatus_scheme list \<Rightarrow> providerState
     \<Rightarrow> providerState \<times> awaiting" where
  "fetchClaimableCapital_begin ttl clk assets s =
     (let needing = assetsNeedingFetch ttl clk assets s in
      if needing = [] then
        (let waitingAssets = filter (\<lambda>asset. hasInflightRequest (asset_id asset) s) assets in
         if waitingAssets \<noteq> []
         then (s, AwaitAllSettled (map (\<lambda>asset. getInflightRequest (asset_id asset) s) waitingAssets))
         else (s, Returned))
      else
        (let assetIds = map asset_id needing;
             s1 = fold (\<lambda>assetId. setLoadingState assetId True) assetIds s;
             operationPromise = length (calls s1);
             s2 = s1\<lparr>calls := calls s1 @ [assetIds]\<rparr>;
             s3 = fold (\<lambda>assetId. setInflightRequest assetId operationPromise) assetIds s2
         in (s3, AwaitOperation operationPromise)))"

text \<open>
  A promise settles with a value or a reason: \<open>Inr\<close> the value, \<open>Inl\<close> the reason.
  The inner async function catches a rejection of the service call, logs it and throws
  it again.
\<close>

definition operationPromise ::
  "string + LazyClaimablePrincipalResult list \<Rightarrow> string + LazyClaimablePrincipalResult list" where
  "operationPromise serviceCall =
     (case serviceCall of Inr results \<Rightarrow> Inr results | Inl err \<Rightarrow> Inl err)"

definition cacheResults ::
  "int \<Rightarrow> (nat \<Rightarrow> int) \<Rightarrow> LazyClaimablePrincipalResult list \<Rightarrow> providerState \<Rightarrow> providerState" where
  "cacheResults maxSize clk results s =
     forEachAt (\<lambda>i fetchResult. setCachedValue maxSize (clk i) (bondId fetchResult)
                  (claimableAmount fetchResult) (fetchError fetchResult)) 0 results s"

definition cacheFailures ::
  "int \<Rightarrow> (nat \<Rightarrow> int) \<Rightarrow> string list \<Rightarrow> providerState \<Rightarrow> providerState" where
  "cacheFailures maxSize clk assetIds s =
     forEachAt (\<lambda>i assetId. setCachedValue maxSize (clk i) assetId ''0'' (Some ''Failed to load''))
       0 assetIds s"

text \<open>
  The rest of \<^verbatim>\<open>fetchClaimableCapital\<close>, from \<^verbatim>\<open>await operationPromise\<close> on. The
  \<^verbatim>\<open>try\<close> block ends with \<open>Inl\<close> when the \<^verbatim>\<open>await\<close> throws; the \<^verbatim>\<open>catch\<close>
  block takes every \<open>Inl\<close>; the result is the settlement of the promise that
  \<^verbatim>\<open>fetchClaimableCapital\<close> returned to its caller.
\<close>

definition fetchClaimableCapital_resume ::
  "int \<Rightarrow> (nat \<Rightarrow> int) \<Rightarrow> string list \<Rightarrow> string + LazyClaimablePrincipalResult list
     \<Rightarrow> providerState \<Rightarrow> string + providerState" where
  "fetchClaimableCapital_resume maxSize clk assetIds serviceCall s =
     (let tryBlock = (case operationPromise serviceCall of
                        Inl err \<Rightarrow> Inl err
                      | Inr results \<Rightarrow> Inr (cacheResults maxSize clk results s));
          afterCatch = (case tryBlock of
                          Inl err \<Rightarrow> Inr (cacheFailures maxSize clk assetIds s)
                        | Inr s1 \<Rightarrow> Inr s1)
      in case afterCatch of
           Inl err \<Rightarrow> Inl err
         | Inr s2 \<Rightarrow> Inr (fold (\<lambda>assetId. setLoadingState assetId False) assetIds s2))"

text \<open>
  The other suspension. \<^verbatim>\<open>Promise.allSettled\<close> is fulfilled with the list of the
  outcomes whatever they are, and \<^verbatim>\<open>fetchClaimableCapital\<close> returns after it.
\<close>

definition promiseAllSettled :: "('e + 'a) list \<Rightarrow> 'e + ('e + 'a) list" where
  "promiseAllSettled outcomes = Inr outcomes"

definition fetchClaimableCapital_afterWait ::
  "(string + LazyClaimablePrincipalResult list) list \<Rightarrow> providerState \<Rightarrow> string + providerState" where
  "fetchClaimableCapital_afterWait outcomes s =
     (case promiseAllSettled outcomes of Inl err \<Rightarrow> Inl err | Inr settled \<Rightarrow> Inr s)"

text \<open>
  The promise of the call for \<open>assetIds\<close> settles. Its reactions run in the order of
  their registration: the \<^verbatim>\<open>finally\<close> callbacks of \<^verbatim>\<open>setInflightRequest\<close>, one for
  each id, then the continuation of \<^verbatim>\<open>fetchClaimableCapital\<close>.
\<close>

definition settle ::
  "int \<Rightarrow> (nat \<Rightarrow> int) \<Rightarrow> string list \<Rightarrow> string + LazyClaimablePrincipalResult list
     \<Rightarrow> providerState \<Rightarrow> string + providerState" where
  "settle maxSize clk assetIds serviceCall s =
     fetchClaimableCapital_resume maxSize clk assetIds serviceCall (fold inflightCleanup assetIds s)"

text \<open>
  \<^verbatim>\<open>retryFailedFetches\<close> does not await the promise of \<^verbatim>\<open>fetchClaimableCapital\<close>:
  it ends when the synchronous part of the fetch ends.

  \<^verbatim>\<open>assetIds.forEach(clearCacheEntry)\<close> passes the two updaters of every id, and
  \<^verbatim>\<open>fetchClaimableCapital(assetsToRetry)\<close> is called in the same run: its filter reads
  \<^verbatim>\<open>cacheRef.current\<close> before React has run a cache updater of the clears, which
  delete from the cache the fetch has left. The updaters of \<^verbatim>\<open>setLoadingBonds\<close>
  run in the order of passing, those of the clears before those of the fetch; nothing
  reads the set in between. The result is the state after all updaters have run.
\<close>

definition retryFailedFetches ::
  "int \<Rightarrow> (nat \<Rightarrow> int) \<Rightarrow> string list \<Rightarrow> 'a BondingStatus_scheme list \<Rightarrow> providerState
     \<Rightarrow> providerState \<times> awaiting" where
  "retryFailedFetches ttl clk assetIds data s =
     (let assetsToRetry = filter (\<lambda>asset. asset_id asset \<in> set assetIds) data;
          s1 = s\<lparr>loadingBonds := fold clearLoading_updater assetIds (loadingBonds s)\<rparr>
      in case fetchClaimableCapital_begin ttl clk assetsToRetry s1 of
           (s2, suspended) \<Rightarrow>
             (s2\<lparr>cache := fold clearCacheEntry_updater assetIds (cache s2)\<rparr>, suspended))"

section \<open>Facts about the model\<close>

subsection \<open>The eviction scan\<close>

lemma oldestScan_Some:
  "fst (oldestScan c (oldestKey, oldestTimestamp)) = Some k \<Longrightarrow>
     oldestKey = Some k \<or> (\<exists>e. (k, e) \<in> set c \<and> timestamp e < oldestTimestamp)"
proof (induction c arbitrary: oldestKey oldestTimestamp)
  case Nil
  then show ?case by simp
next
  case (Cons p rest)
  obtain key entry where p: "p = (key, entry)" by (cases p)
  show ?case
  proof (cases "timestamp entry < oldestTimestamp")
    case True
    with Cons.prems p have "fst (oldestScan rest (Some key, timestamp entry)) = Some k" by simp
    from Cons.IH [OF this] True p show ?thesis by auto
  next
    case False
    with Cons.prems p have "fst (oldestScan rest (oldestKey, oldestTimestamp)) = Some k" by simp
    from Cons.IH [OF this] show ?thesis by auto
  qed
qed

lemma oldestScan_start_Some: "\<exists>k'. fst (oldestScan c (Some k, t)) = Some k'"
  by (induction c arbitrary: k t) auto

lemma oldestScan_finds:
  "(k, e) \<in> set c \<Longrightarrow> timestamp e < t \<Longrightarrow>
     \<exists>k' e'. fst (oldestScan c (oldestKey, t)) = Some k' \<and> (k', e') \<in> set c \<and> timestamp e' < t"
proof (induction c arbitrary: oldestKey t)
  case Nil
  then show ?case by simp
next
  case (Cons p rest)
  obtain key entry where p: "p = (key, entry)" by (cases p)
  show ?case
  proof (cases "timestamp entry < t")
    case True
    obtain k' where k': "fst (oldestScan rest (Some key, timestamp entry)) = Some k'"
      using oldestScan_start_Some by blast
    from oldestScan_Some [OF k'] True
    have "\<exists>e'. (k', e') \<in> set (p # rest) \<and> timestamp e' < t" unfolding p by auto
    with k' True p show ?thesis by auto
  next
    case False
    with Cons.prems p have "(k, e) \<in> set rest" by auto
    from Cons.IH [OF this Cons.prems(2), of oldestKey] False p show ?thesis by auto
  qed
qed

lemma oldestScan_min:
  "snd (oldestScan c (oldestKey, t)) \<le> t
   \<and> (\<forall>p\<in>set c. snd (oldestScan c (oldestKey, t)) \<le> timestamp (snd p))"
proof (induction c arbitrary: oldestKey t)
  case Nil
  then show ?case by simp
next
  case (Cons p rest)
  obtain key entry where p: "p = (key, entry)" by (cases p)
  show ?case
  proof (cases "timestamp entry < t")
    case True
    with Cons.IH [of "Some key" "timestamp entry"] p show ?thesis by auto
  next
    case False
    with Cons.IH [of oldestKey t] p show ?thesis by auto
  qed
qed

lemma oldestScan_attained:
  "fst (oldestScan c (oldestKey, t)) = Some k \<Longrightarrow>
     (oldestKey = Some k \<and> snd (oldestScan c (oldestKey, t)) = t)
     \<or> (\<exists>e. (k, e) \<in> set c \<and> timestamp e = snd (oldestScan c (oldestKey, t)))"
proof (induction c arbitrary: oldestKey t)
  case Nil
  then show ?case by simp
next
  case (Cons p rest)
  obtain key entry where p: "p = (key, entry)" by (cases p)
  show ?case
  proof (cases "timestamp entry < t")
    case True
    with Cons.prems p have "fst (oldestScan rest (Some key, timestamp entry)) = Some k" by simp
    from Cons.IH [OF this] True p show ?thesis by auto
  next
    case False
    with Cons.prems p have "fst (oldestScan rest (oldestKey, t)) = Some k" by simp
    from Cons.IH [OF this] False p show ?thesis by auto
  qed
qed

lemma evictOldest_cases:
  "evictOldest now c = c \<or> (\<exists>k. evictOldest now c = AList.delete k c)"
  by (auto simp: evictOldest_def split: option.splits)

lemma map_of_evictOldest:
  "map_of (evictOldest now c) k = None \<or> map_of (evictOldest now c) k = map_of c k"
  using evictOldest_cases [of now c] by (auto simp: delete_conv')

lemma set_evictOldest_subset: "set (evictOldest now c) \<subseteq> set c"
  using evictOldest_cases [of now c] by (auto simp: AList.delete_eq)

lemma distinct_evictOldest:
  "distinct (map fst c) \<Longrightarrow> distinct (map fst (evictOldest now c))"
  using evictOldest_cases [of now c] by (auto simp: distinct_delete)

lemma length_delete_present:
  "distinct (map fst c) \<Longrightarrow> (k, e) \<in> set c \<Longrightarrow> Suc (length (AList.delete k c)) = length c"
proof (induction c)
  case Nil
  then show ?case by simp
next
  case (Cons p rest)
  show ?case
  proof (cases "fst p = k")
    case True
    with Cons.prems(1) have "k \<notin> fst ` set rest" by auto
    with True show ?thesis by simp
  next
    case False
    with Cons show ?thesis by auto
  qed
qed

text \<open>
  Where some entry is strictly older than the reading of the write and no key is the
  empty string, the scan evicts an entry of minimum timestamp.
\<close>

lemma evictOldest_removes_oldest:
  assumes "distinct (map fst c)" and "(k, e) \<in> set c" and "timestamp e < now"
    and "\<forall>p\<in>set c. fst p \<noteq> []"
  shows "\<exists>k0 e0. (k0, e0) \<in> set c \<and> (\<forall>p\<in>set c. timestamp e0 \<le> timestamp (snd p))
           \<and> evictOldest now c = AList.delete k0 c
           \<and> Suc (length (evictOldest now c)) = length c"
proof -
  from oldestScan_finds [OF assms(2,3), of None]
  obtain k0 where k0: "fst (oldestScan c (None, now)) = Some k0" by blast
  from oldestScan_attained [OF k0] obtain e0 where
    e0: "(k0, e0) \<in> set c" "timestamp e0 = snd (oldestScan c (None, now))" by auto
  from e0(1) assms(4) have ne: "k0 \<noteq> []" by auto
  have ev: "evictOldest now c = AList.delete k0 c" using k0 ne by (simp add: evictOldest_def)
  have "\<forall>p\<in>set c. timestamp e0 \<le> timestamp (snd p)"
    using oldestScan_min [of c None now] e0(2) by simp
  with e0(1) ev length_delete_present [OF assms(1) e0(1)] show ?thesis by auto
qed

text \<open>
  Among the entries of minimum timestamp the scan takes the first in iteration order:
  the entries before it are strictly younger, the entries after it are not older.
\<close>

lemma oldestScan_first_minimum:
  "fst (oldestScan c (oldestKey, t)) = Some k \<Longrightarrow>
     (oldestKey = Some k \<and> (\<forall>p\<in>set c. t \<le> timestamp (snd p)))
     \<or> (\<exists>pre e post. c = pre @ (k, e) # post \<and> timestamp e < t
           \<and> (\<forall>p\<in>set pre. timestamp e < timestamp (snd p))
           \<and> (\<forall>p\<in>set post. timestamp e \<le> timestamp (snd p)))"
proof (induction c arbitrary: oldestKey t)
  case Nil
  then show ?case by simp
next
  case (Cons p rest)
  obtain key entry where p: "p = (key, entry)" by (cases p)
  show ?case
  proof (cases "timestamp entry < t")
    case True
    with Cons.prems p have "fst (oldestScan rest (Some key, timestamp entry)) = Some k" by simp
    from Cons.IH [OF this] show ?thesis
    proof
      assume "Some key = Some k \<and> (\<forall>q\<in>set rest. timestamp entry \<le> timestamp (snd q))"
      then have "p # rest = [] @ (k, entry) # rest \<and> timestamp entry < t
           \<and> (\<forall>q\<in>set []. timestamp entry < timestamp (snd q))
           \<and> (\<forall>q\<in>set rest. timestamp entry \<le> timestamp (snd q))"
        using True p by simp
      then show ?thesis by blast
    next
      assume "\<exists>pre e post. rest = pre @ (k, e) # post \<and> timestamp e < timestamp entry
           \<and> (\<forall>q\<in>set pre. timestamp e < timestamp (snd q))
           \<and> (\<forall>q\<in>set post. timestamp e \<le> timestamp (snd q))"
      then obtain pre e post where r: "rest = pre @ (k, e) # post" "timestamp e < timestamp entry"
        "\<forall>q\<in>set pre. timestamp e < timestamp (snd q)"
        "\<forall>q\<in>set post. timestamp e \<le> timestamp (snd q)" by blast
      then have "p # rest = (p # pre) @ (k, e) # post \<and> timestamp e < t
           \<and> (\<forall>q\<in>set (p # pre). timestamp e < timestamp (snd q))
           \<and> (\<forall>q\<in>set post. timestamp e \<le> timestamp (snd q))"
        using True p by simp
      then show ?thesis by blast
    qed
  next
    case False
    with Cons.prems p have "fst (oldestScan rest (oldestKey, t)) = Some k" by simp
    from Cons.IH [OF this] show ?thesis
    proof
      assume "oldestKey = Some k \<and> (\<forall>q\<in>set rest. t \<le> timestamp (snd q))"
      with False p show ?thesis by simp
    next
      assume "\<exists>pre e post. rest = pre @ (k, e) # post \<and> timestamp e < t
           \<and> (\<forall>q\<in>set pre. timestamp e < timestamp (snd q))
           \<and> (\<forall>q\<in>set post. timestamp e \<le> timestamp (snd q))"
      then obtain pre e post where r: "rest = pre @ (k, e) # post" "timestamp e < t"
        "\<forall>q\<in>set pre. timestamp e < timestamp (snd q)"
        "\<forall>q\<in>set post. timestamp e \<le> timestamp (snd q)" by blast
      then have "p # rest = (p # pre) @ (k, e) # post \<and> timestamp e < t
           \<and> (\<forall>q\<in>set (p # pre). timestamp e < timestamp (snd q))
           \<and> (\<forall>q\<in>set post. timestamp e \<le> timestamp (snd q))"
        using False p by simp
      then show ?thesis by blast
    qed
  qed
qed

lemma evictOldest_first_oldest:
  assumes "(k1, e1) \<in> set c" and "timestamp e1 < now" and "\<forall>p\<in>set c. fst p \<noteq> []"
  shows "\<exists>pre k e post. c = pre @ (k, e) # post
           \<and> (\<forall>p\<in>set pre. timestamp e < timestamp (snd p))
           \<and> (\<forall>p\<in>set post. timestamp e \<le> timestamp (snd p))
           \<and> evictOldest now c = AList.delete k c"
proof -
  from oldestScan_finds [OF assms(1,2), of None]
  obtain k where k: "fst (oldestScan c (None, now)) = Some k" by blast
  from oldestScan_first_minimum [OF k] obtain pre e post where
    c: "c = pre @ (k, e) # post" "\<forall>p\<in>set pre. timestamp e < timestamp (snd p)"
      "\<forall>p\<in>set post. timestamp e \<le> timestamp (snd p)" by auto
  from c(1) assms(3) have "k \<noteq> []" by auto
  with k have "evictOldest now c = AList.delete k c" by (simp add: evictOldest_def)
  with c show ?thesis by blast
qed

text \<open>
  An entry is not evicted while the cache holds a strictly older one.
\<close>

lemma evictOldest_spares:
  assumes "distinct (map fst c)" and "map_of c k = Some e"
    and "(k1, e1) \<in> set c" and "timestamp e1 < timestamp e"
  shows "map_of (evictOldest now c) k = Some e"
proof (cases "fst (oldestScan c (None, now))")
  case None
  then show ?thesis using assms(2) by (simp add: evictOldest_def)
next
  case (Some k0)
  from oldestScan_attained [OF Some] obtain e0 where
    e0: "(k0, e0) \<in> set c" "timestamp e0 = snd (oldestScan c (None, now))" by auto
  have "timestamp e0 \<le> timestamp e1"
    using oldestScan_min [of c None now] assms(3) e0(2) by auto
  with assms(4) have lt: "timestamp e0 < timestamp e" by simp
  have "k0 \<noteq> k"
  proof
    assume "k0 = k"
    with e0(1) assms(1) have "map_of c k = Some e0" by simp
    with assms(2) lt show False by simp
  qed
  with Some assms(2) show ?thesis by (simp add: evictOldest_def delete_conv')
qed

text \<open>
  An entry whose timestamp is not strictly before the reading of the write is never
  evicted by it: \<^verbatim>\<open>oldestTimestamp\<close> starts as \<^verbatim>\<open>Date.now()\<close> and the comparison
  is strict.
\<close>

lemma evictOldest_keeps_recent:
  assumes "distinct (map fst c)" and "map_of c k = Some e" and "\<not> timestamp e < now"
  shows "map_of (evictOldest now c) k = Some e"
proof (cases "fst (oldestScan c (None, now))")
  case None
  then show ?thesis using assms by (simp add: evictOldest_def)
next
  case (Some k')
  from oldestScan_Some [OF Some] obtain e' where e': "(k', e') \<in> set c" "timestamp e' < now"
    by auto
  from e'(1) assms(1) have "map_of c k' = Some e'" by simp
  with assms(2,3) e'(2) have "k' \<noteq> k" by auto
  with Some assms(2) show ?thesis by (simp add: evictOldest_def delete_conv')
qed

subsection \<open>Writing an entry\<close>

lemma map_of_setCachedValue_updater_same:
  "map_of (setCachedValue_updater maxSize now k0 v err c) k0
     = Some \<lparr>value' = v, timestamp = now, error = err\<rparr>"
  by (simp add: setCachedValue_updater_def update_conv')

lemma map_of_setCachedValue_updater_other:
  "k \<noteq> k0 \<Longrightarrow>
     map_of (setCachedValue_updater maxSize now k0 v err c) k = None
     \<or> map_of (setCachedValue_updater maxSize now k0 v err c) k = map_of c k"
  using map_of_evictOldest [of now c k] by (auto simp: setCachedValue_updater_def update_conv')

lemma length_update_le: "length (AList.update k v al) \<le> Suc (length al)"
  by (induction al) auto

lemma set_update_subset: "set (AList.update k v al) \<subseteq> insert (k, v) (set al)"
  by (induction al) auto

lemma set_setCachedValue_updater_subset:
  "set (setCachedValue_updater maxSize now k v err c)
     \<subseteq> insert (k, \<lparr>value' = v, timestamp = now, error = err\<rparr>) (set c)"
proof (cases "maxSize \<le> int (length c)")
  case True
  have "set (AList.update k \<lparr>value' = v, timestamp = now, error = err\<rparr> (evictOldest now c))
      \<subseteq> insert (k, \<lparr>value' = v, timestamp = now, error = err\<rparr>) (set (evictOldest now c))"
    by (rule set_update_subset)
  also have "\<dots> \<subseteq> insert (k, \<lparr>value' = v, timestamp = now, error = err\<rparr>) (set c)"
    using set_evictOldest_subset [of now c] by auto
  finally show ?thesis using True by (simp add: setCachedValue_updater_def)
next
  case False
  then show ?thesis by (simp add: setCachedValue_updater_def set_update_subset)
qed

lemma distinct_setCachedValue_updater:
  "distinct (map fst c) \<Longrightarrow> distinct (map fst (setCachedValue_updater maxSize now k0 v err c))"
  by (simp add: setCachedValue_updater_def distinct_update distinct_evictOldest)

lemma setCachedValue_updater_room:
  "int (length c) < maxSize \<Longrightarrow>
     setCachedValue_updater maxSize now k0 v err c
       = AList.update k0 \<lparr>value' = v, timestamp = now, error = err\<rparr> c"
  by (simp add: setCachedValue_updater_def)

lemma setCachedValue_updater_bound:
  assumes "1 \<le> maxSize" and "int (length c) \<le> maxSize" and "distinct (map fst c)"
    and "\<forall>p\<in>set c. fst p \<noteq> [] \<and> timestamp (snd p) < now"
  shows "int (length (setCachedValue_updater maxSize now k v err c)) \<le> maxSize"
proof (cases "maxSize \<le> int (length c)")
  case False
  then show ?thesis
    using length_update_le [of k "\<lparr>value' = v, timestamp = now, error = err\<rparr>" c]
    by (simp add: setCachedValue_updater_def)
next
  case True
  with assms(1) have "c \<noteq> []" by auto
  then obtain k1 e1 where in_c: "(k1, e1) \<in> set c" by (cases c) auto
  with assms(4) have old: "timestamp e1 < now" by auto
  have "\<forall>p\<in>set c. fst p \<noteq> []" using assms(4) by simp
  from evictOldest_removes_oldest [OF assms(3) in_c old this]
  have "Suc (length (evictOldest now c)) = length c" by auto
  with assms(2) True
    length_update_le [of k "\<lparr>value' = v, timestamp = now, error = err\<rparr>" "evictOldest now c"]
  show ?thesis by (simp add: setCachedValue_updater_def)
qed

text \<open>
  The capacity test does not look at the key written: at capacity an entry of minimum
  timestamp is evicted also when the key is already in the cache.
\<close>

lemma setCachedValue_updater_evicts_at_capacity:
  assumes "maxSize \<le> int (length c)" and "distinct (map fst c)"
    and "(k1, e1) \<in> set c" and "timestamp e1 < now" and "\<forall>p\<in>set c. fst p \<noteq> []"
  shows "\<exists>k0 e0. (k0, e0) \<in> set c \<and> (\<forall>p\<in>set c. timestamp e0 \<le> timestamp (snd p))
           \<and> setCachedValue_updater maxSize now k v err c
               = AList.update k \<lparr>value' = v, timestamp = now, error = err\<rparr> (AList.delete k0 c)"
proof -
  from evictOldest_removes_oldest [OF assms(2-5)] obtain k0 e0 where
    "(k0, e0) \<in> set c" "\<forall>p\<in>set c. timestamp e0 \<le> timestamp (snd p)"
    "evictOldest now c = AList.delete k0 c" by blast
  with assms(1) show ?thesis by (auto simp: setCachedValue_updater_def)
qed

text \<open>
  The bound is kept as long as every write reads a clock value strictly later than
  the timestamps in the cache and no key is the empty string: these three properties
  of the cache hold again after such a write, for every later reading.
\<close>

lemma setCachedValue_updater_invariant:
  assumes "1 \<le> maxSize" and "int (length c) \<le> maxSize" and "distinct (map fst c)"
    and "\<forall>p\<in>set c. fst p \<noteq> [] \<and> timestamp (snd p) < now"
    and "k \<noteq> []" and "now < now'"
  shows "int (length (setCachedValue_updater maxSize now k v err c)) \<le> maxSize
       \<and> distinct (map fst (setCachedValue_updater maxSize now k v err c))
       \<and> (\<forall>p\<in>set (setCachedValue_updater maxSize now k v err c).
             fst p \<noteq> [] \<and> timestamp (snd p) < now')"
proof -
  have "set (setCachedValue_updater maxSize now k v err c)
      \<subseteq> insert (k, \<lparr>value' = v, timestamp = now, error = err\<rparr>) (set c)"
    using set_update_subset [of k "\<lparr>value' = v, timestamp = now, error = err\<rparr>"]
      set_evictOldest_subset [of now c]
    by (auto simp: setCachedValue_updater_def)
  then have "\<forall>p\<in>set (setCachedValue_updater maxSize now k v err c).
             fst p \<noteq> [] \<and> timestamp (snd p) < now'"
    using assms(4-6) by fastforce
  with setCachedValue_updater_bound [OF assms(1-4)] distinct_setCachedValue_updater [OF assms(3)]
  show ?thesis by simp
qed

subsection \<open>What each operation leaves unchanged\<close>

lemma setCachedValue_fields [simp]:
  "cache (setCachedValue maxSize now k v err s) = setCachedValue_updater maxSize now k v err (cache s)"
  "loadingBonds (setCachedValue maxSize now k v err s) = loadingBonds s"
  "inflightRequests (setCachedValue maxSize now k v err s) = inflightRequests s"
  "calls (setCachedValue maxSize now k v err s) = calls s"
  by (simp_all add: setCachedValue_def)

lemma setLoadingState_fields [simp]:
  "cache (setLoadingState k b s) = cache s"
  "loadingBonds (setLoadingState k b s) = (if b then insert k (loadingBonds s) else loadingBonds s - {k})"
  "inflightRequests (setLoadingState k b s) = inflightRequests s"
  "calls (setLoadingState k b s) = calls s"
  by (simp_all add: setLoadingState_def)

lemma inflightCleanup_fields [simp]:
  "cache (inflightCleanup k s) = cache s"
  "loadingBonds (inflightCleanup k s) = loadingBonds s"
  "inflightRequests (inflightCleanup k s) = (inflightRequests s)(k := None)"
  "calls (inflightCleanup k s) = calls s"
  by (simp_all add: inflightCleanup_def)

lemma setInflightRequest_fields [simp]:
  "cache (setInflightRequest k p s) = cache s"
  "loadingBonds (setInflightRequest k p s) = loadingBonds s"
  "inflightRequests (setInflightRequest k p s) = (inflightRequests s)(k \<mapsto> p)"
  "calls (setInflightRequest k p s) = calls s"
  by (simp_all add: setInflightRequest_def)

lemma clearCacheEntry_fields [simp]:
  "cache (clearCacheEntry k s) = AList.delete k (cache s)"
  "loadingBonds (clearCacheEntry k s) = loadingBonds s - {k}"
  "inflightRequests (clearCacheEntry k s) = inflightRequests s"
  "calls (clearCacheEntry k s) = calls s"
  by (simp_all add: clearCacheEntry_def clearCacheEntry_updater_def clearLoading_updater_def)

lemma fold_setLoadingState_fields [simp]:
  "cache (fold (\<lambda>k. setLoadingState k b) ks s) = cache s"
  "inflightRequests (fold (\<lambda>k. setLoadingState k b) ks s) = inflightRequests s"
  "calls (fold (\<lambda>k. setLoadingState k b) ks s) = calls s"
  by (induction ks arbitrary: s; simp)+

lemma fold_setLoadingState_loading:
  "loadingBonds (fold (\<lambda>k. setLoadingState k b) ks s)
     = (if b then loadingBonds s \<union> set ks else loadingBonds s - set ks)"
  by (induction ks arbitrary: s) auto

lemma fold_inflightCleanup_fields [simp]:
  "cache (fold inflightCleanup ks s) = cache s"
  "loadingBonds (fold inflightCleanup ks s) = loadingBonds s"
  "calls (fold inflightCleanup ks s) = calls s"
  by (induction ks arbitrary: s; simp)+

lemma fold_inflightCleanup_inflight:
  "inflightRequests (fold inflightCleanup ks s) k
     = (if k \<in> set ks then None else inflightRequests s k)"
  by (induction ks arbitrary: s) auto

lemma fold_setInflightRequest_fields [simp]:
  "cache (fold (\<lambda>k. setInflightRequest k p) ks s) = cache s"
  "loadingBonds (fold (\<lambda>k. setInflightRequest k p) ks s) = loadingBonds s"
  "calls (fold (\<lambda>k. setInflightRequest k p) ks s) = calls s"
  by (induction ks arbitrary: s; simp)+

lemma fold_setInflightRequest_inflight:
  "inflightRequests (fold (\<lambda>k. setInflightRequest k p) ks s) k
     = (if k \<in> set ks then Some p else inflightRequests s k)"
  by (induction ks arbitrary: s) auto

lemma fold_clearCacheEntry_updater:
  "fold clearCacheEntry_updater ks c = filter (\<lambda>(k, entry). k \<notin> set ks) c"
proof (induction ks arbitrary: c)
  case Nil
  then show ?case by simp
next
  case (Cons x ks)
  have "filter (\<lambda>(k, entry). k \<notin> set ks) (AList.delete x c)
      = filter (\<lambda>(k, entry). k \<notin> set (x # ks)) c" for c :: cacheMap
    by (induction c) auto
  with Cons.IH [of "AList.delete x c"] show ?case by (simp add: clearCacheEntry_updater_def)
qed

lemma fold_clearLoading_updater: "fold clearLoading_updater ks prev = prev - set ks"
  by (induction ks arbitrary: prev) (auto simp: clearLoading_updater_def)

lemma map_of_cleared:
  "k \<in> set ks \<Longrightarrow> map_of (filter (\<lambda>(k, entry). k \<notin> set ks) c) k = None"
  by (induction c) auto

subsection \<open>Iterations that read the clock\<close>

lemma forEachAt_append:
  "forEachAt f i (xs @ ys) s = forEachAt f (i + length xs) ys (forEachAt f i xs s)"
  by (induction xs arbitrary: i s) auto

lemma forEachAt_setCachedValue_frame [simp]:
  "loadingBonds (forEachAt (\<lambda>i x. setCachedValue maxSize (clk i) (kf x) (vf x) (ef x)) i xs s) = loadingBonds s"
  "inflightRequests (forEachAt (\<lambda>i x. setCachedValue maxSize (clk i) (kf x) (vf x) (ef x)) i xs s) = inflightRequests s"
  "calls (forEachAt (\<lambda>i x. setCachedValue maxSize (clk i) (kf x) (vf x) (ef x)) i xs s) = calls s"
  by (induction xs arbitrary: i s; simp)+

lemma filterAt_holds: "x \<in> set (filterAt P i xs) \<Longrightarrow> \<exists>j. P j x"
  by (induction xs arbitrary: i) (auto split: if_splits)

lemma filterAt_cong:
  "(\<And>j x. x \<in> set xs \<Longrightarrow> P j x = Q j x) \<Longrightarrow> filterAt P i xs = filterAt Q i xs"
  by (induction xs arbitrary: i) auto

lemma filterAt_all: "(\<And>j x. x \<in> set xs \<Longrightarrow> P j x) \<Longrightarrow> filterAt P i xs = xs"
  by (induction xs arbitrary: i) auto

lemma length_filterAt_le: "length (filterAt P i xs) \<le> length xs"
  by (induction xs arbitrary: i) (auto simp: le_SucI)

lemma filterAt_not_longer: "filterAt P i xs \<noteq> x # xs"
proof
  assume "filterAt P i xs = x # xs"
  then have "length (filterAt P i xs) = Suc (length xs)" by simp
  with length_filterAt_le [of P i xs] show False by simp
qed

lemma filterAt_valid_const:
  "filterAt (\<lambda>j p. now - timestamp (snd p) < ttl) i c
     = filter (\<lambda>(k, entry). now - timestamp entry < ttl) c"
  by (induction c arbitrary: i) auto

lemma filterAt_case_prod:
  "filterAt (\<lambda>i (k, entry). Q i entry) i c = filterAt (\<lambda>j p. Q j (snd p)) i c"
  by (rule filterAt_cong) auto

subsection \<open>The write-back of a batch\<close>

lemma key_outside:
  assumes "distinct (map fst c)" and "finite W" and "card W < length c"
  shows "\<exists>p\<in>set c. fst p \<notin> W"
proof (rule ccontr)
  assume "\<not> (\<exists>p\<in>set c. fst p \<notin> W)"
  then have "set (map fst c) \<subseteq> W" by auto
  with assms(2) have "card (set (map fst c)) \<le> card W" by (simp add: card_mono)
  moreover have "card (set (map fst c)) = length c"
    using assms(1) distinct_card [of "map fst c"] by simp
  ultimately show False using assms(3) by simp
qed

text \<open>
  A batch written into a cache that has room for all of it: nothing is evicted.
\<close>

lemma forEachAt_failures_room:
  assumes "int (length (cache s)) + int (length ids) \<le> maxSize"
    and "\<forall>k\<in>W. \<exists>e. map_of (cache s) k = Some e \<and> value' e = v \<and> error e = err"
  shows "\<forall>k\<in>W \<union> set ids. \<exists>e.
           map_of (cache (forEachAt (\<lambda>i k. setCachedValue maxSize (clk i) k v err) i ids s)) k = Some e
           \<and> value' e = v \<and> error e = err"
  using assms
proof (induction ids arbitrary: s W i)
  case Nil
  then show ?case by simp
next
  case (Cons x ids)
  let ?s1 = "setCachedValue maxSize (clk i) x v err s"
  have room: "int (length (cache s)) < maxSize" using Cons.prems(1) by simp
  have c1: "cache ?s1 = AList.update x \<lparr>value' = v, timestamp = clk i, error = err\<rparr> (cache s)"
    by (simp add: setCachedValue_updater_room [OF room])
  have len: "int (length (cache ?s1)) + int (length ids) \<le> maxSize"
    using Cons.prems(1) length_update_le [of x "\<lparr>value' = v, timestamp = clk i, error = err\<rparr>" "cache s"]
    unfolding c1 by simp
  have w: "\<forall>k\<in>insert x W. \<exists>e. map_of (cache ?s1) k = Some e \<and> value' e = v \<and> error e = err"
    using Cons.prems(2) unfolding c1 by (auto simp: update_conv')
  from Cons.IH [OF len w, of "Suc i"] show ?case by simp
qed

text \<open>
  A batch of distinct keys, no larger than \<^verbatim>\<open>maxSize\<close>, written at readings from
  \<open>t0\<close> on into a cache whose other entries are older than \<open>t0\<close>: whenever a write
  finds the cache full, an entry from before the batch is still there, and the scan
  takes the oldest entry.
\<close>

lemma forEachAt_failures_fits:
  assumes "distinct (map fst (cache s))" and "distinct ids" and "set ids \<inter> W = {}"
    and "finite W" and "int (card W) + int (length ids) \<le> maxSize"
    and "\<forall>k\<in>W. \<exists>e. map_of (cache s) k = Some e \<and> value' e = v \<and> error e = err
                     \<and> t0 \<le> timestamp e"
    and "\<forall>p\<in>set (cache s). fst p \<notin> W \<longrightarrow> timestamp (snd p) < t0"
    and "\<forall>j. i \<le> j \<and> j < i + length ids \<longrightarrow> t0 \<le> clk j"
  shows "\<forall>k\<in>W \<union> set ids. \<exists>e.
           map_of (cache (forEachAt (\<lambda>i k. setCachedValue maxSize (clk i) k v err) i ids s)) k = Some e
           \<and> value' e = v \<and> error e = err"
  using assms
proof (induction ids arbitrary: s W i)
  case Nil
  then show ?case by auto
next
  case (Cons x ids)
  let ?F = "\<lparr>value' = v, timestamp = clk i, error = err\<rparr>"
  let ?c = "cache s"
  let ?c' = "setCachedValue_updater maxSize (clk i) x v err ?c"
  let ?s1 = "setCachedValue maxSize (clk i) x v err s"
  have xW: "x \<notin> W" using Cons.prems(3) by auto
  have ti: "t0 \<le> clk i" using Cons.prems(8) by simp
  have keep: "map_of ?c' k = map_of ?c k" if k: "k \<in> W" for k
  proof -
    from k Cons.prems(6) obtain e where e: "map_of ?c k = Some e" "t0 \<le> timestamp e" by auto
    from k xW have kx: "k \<noteq> x" by auto
    show ?thesis
    proof (cases "maxSize \<le> int (length ?c)")
      case False
      with kx show ?thesis by (simp add: setCachedValue_updater_def update_conv')
    next
      case True
      with Cons.prems(5) have "card W < length ?c" by simp
      from key_outside [OF Cons.prems(1,4) this] obtain k1 e1 where
        p: "(k1, e1) \<in> set ?c" "k1 \<notin> W" by auto
      with Cons.prems(7) have "timestamp e1 < t0" by auto
      with e(2) have "timestamp e1 < timestamp e" by simp
      from evictOldest_spares [OF Cons.prems(1) e(1) p(1) this, of "clk i"] e(1) kx True
      show ?thesis by (simp add: setCachedValue_updater_def update_conv')
    qed
  qed
  have d: "distinct (map fst (cache ?s1))"
    using Cons.prems(1) by (simp add: distinct_setCachedValue_updater)
  have sub: "set ?c' \<subseteq> insert (x, ?F) (set ?c)"
    by (rule set_setCachedValue_updater_subset)
  have w: "\<forall>k\<in>insert x W. \<exists>e. map_of (cache ?s1) k = Some e \<and> value' e = v \<and> error e = err
                     \<and> t0 \<le> timestamp e"
  proof
    fix k assume "k \<in> insert x W"
    then consider "k = x" | "k \<in> W" by auto
    then show "\<exists>e. map_of (cache ?s1) k = Some e \<and> value' e = v \<and> error e = err
                     \<and> t0 \<le> timestamp e"
    proof cases
      case 1
      with ti show ?thesis by (simp add: map_of_setCachedValue_updater_same)
    next
      case 2
      with keep [OF 2] Cons.prems(6) show ?thesis by simp
    qed
  qed
  have old: "\<forall>p\<in>set (cache ?s1). fst p \<notin> insert x W \<longrightarrow> timestamp (snd p) < t0"
    using sub Cons.prems(7) by auto
  have dis: "distinct ids" and int: "set ids \<inter> insert x W = {}"
    using Cons.prems(2,3) by auto
  have fin: "finite (insert x W)" using Cons.prems(4) by simp
  have cnt: "int (card (insert x W)) + int (length ids) \<le> maxSize"
    using Cons.prems(4,5) xW by simp
  have clk: "\<forall>j. Suc i \<le> j \<and> j < Suc i + length ids \<longrightarrow> t0 \<le> clk j"
    using Cons.prems(8) by auto
  from Cons.IH [OF d dis int fin cnt w old clk] show ?case by simp
qed

text \<open>
  In general a key written by the batch holds the entry written for it, or none where
  a later write of the batch evicted it.
\<close>

lemma forEachAt_written_or_gone:
  assumes "\<forall>k\<in>W. map_of (cache s) k = None
              \<or> (\<exists>e. map_of (cache s) k = Some e \<and> value' e = v \<and> error e = err)"
  shows "\<forall>k\<in>W \<union> set ids.
           map_of (cache (forEachAt (\<lambda>i k. setCachedValue maxSize (clk i) k v err) i ids s)) k = None
           \<or> (\<exists>e. map_of (cache (forEachAt (\<lambda>i k. setCachedValue maxSize (clk i) k v err) i ids s)) k = Some e
                 \<and> value' e = v \<and> error e = err)"
  using assms
proof (induction ids arbitrary: s W i)
  case Nil
  then show ?case by simp
next
  case (Cons x ids)
  let ?s1 = "setCachedValue maxSize (clk i) x v err s"
  have w: "\<forall>k\<in>insert x W. map_of (cache ?s1) k = None
              \<or> (\<exists>e. map_of (cache ?s1) k = Some e \<and> value' e = v \<and> error e = err)"
  proof
    fix k assume k: "k \<in> insert x W"
    show "map_of (cache ?s1) k = None
              \<or> (\<exists>e. map_of (cache ?s1) k = Some e \<and> value' e = v \<and> error e = err)"
    proof (cases "k = x")
      case True
      then show ?thesis by (simp add: map_of_setCachedValue_updater_same)
    next
      case False
      with k Cons.prems have "map_of (cache s) k = None
              \<or> (\<exists>e. map_of (cache s) k = Some e \<and> value' e = v \<and> error e = err)" by auto
      with map_of_setCachedValue_updater_other [OF False, of maxSize "clk i" v err "cache s"]
      show ?thesis by auto
    qed
  qed
  from Cons.IH [OF w, of "Suc i"] show ?case by simp
qed

lemma settle_rejected:
  "settle maxSize clk assetIds (Inl reason) s
     = Inr (fold (\<lambda>assetId. setLoadingState assetId False) assetIds
              (cacheFailures maxSize clk assetIds (fold inflightCleanup assetIds s)))"
  by (simp add: settle_def fetchClaimableCapital_resume_def operationPromise_def)

lemma settle_resolved:
  "settle maxSize clk assetIds (Inr results) s
     = Inr (fold (\<lambda>assetId. setLoadingState assetId False) assetIds
              (cacheResults maxSize clk results (fold inflightCleanup assetIds s)))"
  by (simp add: settle_def fetchClaimableCapital_resume_def operationPromise_def)

lemma cacheFailures_holds:
  assumes "distinct (map fst (cache s))"
    and "int (length (cache s)) + int (length assetIds) \<le> maxSize
         \<or> (distinct assetIds \<and> int (length assetIds) \<le> maxSize
            \<and> (\<forall>p\<in>set (cache s). timestamp (snd p) < clk 0)
            \<and> (\<forall>i<length assetIds. clk 0 \<le> clk i))"
  shows "\<forall>k\<in>set assetIds. \<exists>e. map_of (cache (cacheFailures maxSize clk assetIds s)) k = Some e
            \<and> value' e = ''0'' \<and> error e = Some ''Failed to load''"
  using assms(2)
proof
  assume room: "int (length (cache s)) + int (length assetIds) \<le> maxSize"
  from forEachAt_failures_room [OF room, of "{}" "''0''" "Some ''Failed to load''" clk 0]
  show ?thesis unfolding cacheFailures_def by simp
next
  assume fits: "distinct assetIds \<and> int (length assetIds) \<le> maxSize
            \<and> (\<forall>p\<in>set (cache s). timestamp (snd p) < clk 0)
            \<and> (\<forall>i<length assetIds. clk 0 \<le> clk i)"
  have "\<forall>k\<in>{} \<union> set assetIds. \<exists>e.
           map_of (cache (forEachAt (\<lambda>i k. setCachedValue maxSize (clk i) k ''0''
                    (Some ''Failed to load'')) 0 assetIds s)) k = Some e
           \<and> value' e = ''0'' \<and> error e = Some ''Failed to load''"
    by (rule forEachAt_failures_fits [where ?t0.0 = "clk 0"]) (use assms(1) fits in auto)
  then show ?thesis unfolding cacheFailures_def by simp
qed

lemma cacheFailures_last:
  "assetIds \<noteq> [] \<Longrightarrow>
     map_of (cache (cacheFailures maxSize clk assetIds s)) (last assetIds)
       = Some \<lparr>value' = ''0'', timestamp = clk (length assetIds - 1), error = Some ''Failed to load''\<rparr>"
proof -
  assume ne: "assetIds \<noteq> []"
  then obtain xs x where eq: "assetIds = xs @ [x]" by (metis rev_exhaust)
  show ?thesis
    unfolding eq cacheFailures_def
    by (simp add: forEachAt_append map_of_setCachedValue_updater_same)
qed

lemma cacheFailures_written_or_gone:
  "\<forall>k\<in>set assetIds.
      map_of (cache (cacheFailures maxSize clk assetIds s)) k = None
      \<or> (\<exists>e. map_of (cache (cacheFailures maxSize clk assetIds s)) k = Some e
            \<and> value' e = ''0'' \<and> error e = Some ''Failed to load'')"
  using forEachAt_written_or_gone [of "{}" s "''0''" "Some ''Failed to load''" assetIds maxSize clk 0]
  unfolding cacheFailures_def by simp

text \<open>
  The results of a resolved call, written into a cache that has room for all of them:
  nothing is evicted, and every result with a key of its own is held as it was written.
  \<open>E\<close> are the entries the batch has written so far.
\<close>

lemma forEachAt_results_room:
  assumes "int (length (cache s)) + int (length rs) \<le> maxSize"
    and "distinct (map bondId rs)"
    and "bondId ` set rs \<inter> dom E = {}"
    and "\<forall>k\<in>dom E. map_of (cache s) k = E k"
  shows "(\<forall>k\<in>dom E. map_of (cache (forEachAt (\<lambda>i r. setCachedValue maxSize (clk i) (bondId r)
                  (claimableAmount r) (fetchError r)) i rs s)) k = E k)
       \<and> (\<forall>j<length rs. map_of (cache (forEachAt (\<lambda>i r. setCachedValue maxSize (clk i) (bondId r)
                  (claimableAmount r) (fetchError r)) i rs s)) (bondId (rs ! j))
             = Some \<lparr>value' = claimableAmount (rs ! j), timestamp = clk (i + j),
                      error = fetchError (rs ! j)\<rparr>)"
  using assms
proof (induction rs arbitrary: s E i)
  case Nil
  then show ?case by simp
next
  case (Cons x rs)
  let ?F = "\<lparr>value' = claimableAmount x, timestamp = clk i, error = fetchError x\<rparr>"
  let ?s1 = "setCachedValue maxSize (clk i) (bondId x) (claimableAmount x) (fetchError x) s"
  let ?E = "E(bondId x \<mapsto> ?F)"
  let ?fin = "forEachAt (\<lambda>i r. setCachedValue maxSize (clk i) (bondId r)
                  (claimableAmount r) (fetchError r)) (Suc i) rs ?s1"
  have xE: "bondId x \<notin> dom E" using Cons.prems(3) by auto
  have room: "int (length (cache s)) < maxSize" using Cons.prems(1) by simp
  have c1: "cache ?s1 = AList.update (bondId x) ?F (cache s)"
    by (simp add: setCachedValue_updater_room [OF room])
  have len: "int (length (cache ?s1)) + int (length rs) \<le> maxSize"
    using Cons.prems(1) length_update_le [of "bondId x" ?F "cache s"]
    unfolding c1 by simp
  have dis: "distinct (map bondId rs)" using Cons.prems(2) by simp
  have int: "bondId ` set rs \<inter> dom ?E = {}" using Cons.prems(2,3) by auto
  have w: "\<forall>k\<in>dom ?E. map_of (cache ?s1) k = ?E k"
    using Cons.prems(4) unfolding c1 by (auto simp: update_conv')
  from Cons.IH [OF len dis int w, of "Suc i"]
  have ih1: "\<forall>k\<in>dom ?E. map_of (cache ?fin) k = ?E k"
    and ih2: "\<forall>j<length rs. map_of (cache ?fin) (bondId (rs ! j))
             = Some \<lparr>value' = claimableAmount (rs ! j), timestamp = clk (Suc i + j),
                      error = fetchError (rs ! j)\<rparr>"
    by blast+
  have a: "\<forall>k\<in>dom E. map_of (cache ?fin) k = E k"
  proof
    fix k assume k: "k \<in> dom E"
    with xE have "k \<noteq> bondId x" by auto
    with ih1 k show "map_of (cache ?fin) k = E k" by auto
  qed
  have b: "map_of (cache ?fin) (bondId ((x # rs) ! j))
             = Some \<lparr>value' = claimableAmount ((x # rs) ! j), timestamp = clk (i + j),
                      error = fetchError ((x # rs) ! j)\<rparr>" if j: "j < length (x # rs)" for j
  proof (cases j)
    case 0
    with ih1 show ?thesis by simp
  next
    case (Suc j')
    with j ih2 show ?thesis by simp
  qed
  from a b show ?case by simp
qed

text \<open>
  The results of a resolved call, with keys of their own and no more than
  \<^verbatim>\<open>maxSize\<close> of them, written at readings from \<open>t0\<close> on into a cache whose
  other entries are older than \<open>t0\<close>: no write of the batch evicts an entry of the
  batch.
\<close>

lemma forEachAt_results_fits:
  assumes "distinct (map fst (cache s))" and "distinct (map bondId rs)"
    and "bondId ` set rs \<inter> dom E = {}"
    and "finite (dom E)" and "int (card (dom E)) + int (length rs) \<le> maxSize"
    and "\<forall>k\<in>dom E. map_of (cache s) k = E k"
    and "\<forall>k e. E k = Some e \<longrightarrow> t0 \<le> timestamp e"
    and "\<forall>p\<in>set (cache s). fst p \<notin> dom E \<longrightarrow> timestamp (snd p) < t0"
    and "\<forall>j. i \<le> j \<and> j < i + length rs \<longrightarrow> t0 \<le> clk j"
  shows "(\<forall>k\<in>dom E. map_of (cache (forEachAt (\<lambda>i r. setCachedValue maxSize (clk i) (bondId r)
                  (claimableAmount r) (fetchError r)) i rs s)) k = E k)
       \<and> (\<forall>j<length rs. map_of (cache (forEachAt (\<lambda>i r. setCachedValue maxSize (clk i) (bondId r)
                  (claimableAmount r) (fetchError r)) i rs s)) (bondId (rs ! j))
             = Some \<lparr>value' = claimableAmount (rs ! j), timestamp = clk (i + j),
                      error = fetchError (rs ! j)\<rparr>)"
  using assms
proof (induction rs arbitrary: s E i)
  case Nil
  then show ?case by simp
next
  case (Cons x rs)
  let ?F = "\<lparr>value' = claimableAmount x, timestamp = clk i, error = fetchError x\<rparr>"
  let ?c = "cache s"
  let ?c' = "setCachedValue_updater maxSize (clk i) (bondId x) (claimableAmount x) (fetchError x) ?c"
  let ?s1 = "setCachedValue maxSize (clk i) (bondId x) (claimableAmount x) (fetchError x) s"
  let ?E = "E(bondId x \<mapsto> ?F)"
  let ?fin = "forEachAt (\<lambda>i r. setCachedValue maxSize (clk i) (bondId r)
                  (claimableAmount r) (fetchError r)) (Suc i) rs ?s1"
  have xE: "bondId x \<notin> dom E" using Cons.prems(3) by auto
  have ti: "t0 \<le> clk i" using Cons.prems(9) by simp
  have keep: "map_of ?c' k = map_of ?c k" if k: "k \<in> dom E" for k
  proof -
    from k Cons.prems(6,7) obtain e where e: "map_of ?c k = Some e" "t0 \<le> timestamp e"
      by (metis domD)
    from k xE have kx: "k \<noteq> bondId x" by auto
    show ?thesis
    proof (cases "maxSize \<le> int (length ?c)")
      case False
      with kx show ?thesis by (simp add: setCachedValue_updater_def update_conv')
    next
      case True
      with Cons.prems(5) have "card (dom E) < length ?c" by simp
      from key_outside [OF Cons.prems(1,4) this] obtain p where
        p: "p \<in> set ?c" "fst p \<notin> dom E" by blast
      then have p1: "(fst p, snd p) \<in> set ?c" by simp
      from p Cons.prems(8) have "timestamp (snd p) < t0" by blast
      with e(2) have "timestamp (snd p) < timestamp e" by simp
      from evictOldest_spares [OF Cons.prems(1) e(1) p1 this, of "clk i"] e(1) kx True
      show ?thesis by (simp add: setCachedValue_updater_def update_conv')
    qed
  qed
  have d: "distinct (map fst (cache ?s1))"
    using Cons.prems(1) by (simp add: distinct_setCachedValue_updater)
  have sub: "set ?c' \<subseteq> insert (bondId x, ?F) (set ?c)"
    by (rule set_setCachedValue_updater_subset)
  have dis: "distinct (map bondId rs)" using Cons.prems(2) by simp
  have int: "bondId ` set rs \<inter> dom ?E = {}" using Cons.prems(2,3) by auto
  have fin: "finite (dom ?E)" using Cons.prems(4) by simp
  have cnt: "int (card (dom ?E)) + int (length rs) \<le> maxSize"
    using Cons.prems(4,5) xE by simp
  have w: "\<forall>k\<in>dom ?E. map_of (cache ?s1) k = ?E k"
  proof
    fix k assume "k \<in> dom ?E"
    then consider "k = bondId x" | "k \<noteq> bondId x" "k \<in> dom E" by auto
    then show "map_of (cache ?s1) k = ?E k"
    proof cases
      case 1
      then show ?thesis by (simp add: map_of_setCachedValue_updater_same)
    next
      case 2
      with keep [OF 2(2)] Cons.prems(6) show ?thesis by simp
    qed
  qed
  have ts: "\<forall>k e. ?E k = Some e \<longrightarrow> t0 \<le> timestamp e"
    using Cons.prems(7) ti by auto
  have old: "\<forall>p\<in>set (cache ?s1). fst p \<notin> dom ?E \<longrightarrow> timestamp (snd p) < t0"
    using sub Cons.prems(8) by auto
  have clk: "\<forall>j. Suc i \<le> j \<and> j < Suc i + length rs \<longrightarrow> t0 \<le> clk j"
    using Cons.prems(9) by auto
  from Cons.IH [OF d dis int fin cnt w ts old clk]
  have ih1: "\<forall>k\<in>dom ?E. map_of (cache ?fin) k = ?E k"
    and ih2: "\<forall>j<length rs. map_of (cache ?fin) (bondId (rs ! j))
             = Some \<lparr>value' = claimableAmount (rs ! j), timestamp = clk (Suc i + j),
                      error = fetchError (rs ! j)\<rparr>"
    by blast+
  have a: "\<forall>k\<in>dom E. map_of (cache ?fin) k = E k"
  proof
    fix k assume k: "k \<in> dom E"
    with xE have "k \<noteq> bondId x" by auto
    with ih1 k show "map_of (cache ?fin) k = E k" by auto
  qed
  have b: "map_of (cache ?fin) (bondId ((x # rs) ! j))
             = Some \<lparr>value' = claimableAmount ((x # rs) ! j), timestamp = clk (i + j),
                      error = fetchError ((x # rs) ! j)\<rparr>" if j: "j < length (x # rs)" for j
  proof (cases j)
    case 0
    with ih1 show ?thesis by simp
  next
    case (Suc j')
    with j ih2 show ?thesis by simp
  qed
  from a b show ?case by simp
qed

lemma cacheResults_holds:
  assumes "distinct (map fst (cache s))" and "distinct (map bondId results)"
    and "int (length (cache s)) + int (length results) \<le> maxSize
         \<or> (int (length results) \<le> maxSize
            \<and> (\<forall>p\<in>set (cache s). timestamp (snd p) < clk 0)
            \<and> (\<forall>i<length results. clk 0 \<le> clk i))"
    and "j < length results"
  shows "map_of (cache (cacheResults maxSize clk results s)) (bondId (results ! j))
           = Some \<lparr>value' = claimableAmount (results ! j), timestamp = clk j,
                    error = fetchError (results ! j)\<rparr>"
  using assms(3)
proof
  assume room: "int (length (cache s)) + int (length results) \<le> maxSize"
  from forEachAt_results_room [OF room assms(2), of Map.empty clk 0] assms(4)
  show ?thesis unfolding cacheResults_def by simp
next
  assume fits: "int (length results) \<le> maxSize
            \<and> (\<forall>p\<in>set (cache s). timestamp (snd p) < clk 0)
            \<and> (\<forall>i<length results. clk 0 \<le> clk i)"
  have "(\<forall>k\<in>dom (Map.empty :: string \<rightharpoonup> CachedRedeemableCapital).
            map_of (cache (forEachAt (\<lambda>i r. setCachedValue maxSize (clk i) (bondId r)
                  (claimableAmount r) (fetchError r)) 0 results s)) k = Map.empty k)
       \<and> (\<forall>j<length results. map_of (cache (forEachAt (\<lambda>i r. setCachedValue maxSize (clk i) (bondId r)
                  (claimableAmount r) (fetchError r)) 0 results s)) (bondId (results ! j))
             = Some \<lparr>value' = claimableAmount (results ! j), timestamp = clk (0 + j),
                      error = fetchError (results ! j)\<rparr>)"
    by (rule forEachAt_results_fits [where ?t0.0 = "clk 0"]) (use assms(1,2) fits in auto)
  with assms(4) show ?thesis unfolding cacheResults_def by simp
qed

subsection \<open>The synchronous part of the fetch\<close>

lemma begin_cache [simp]:
  "cache (fst (fetchClaimableCapital_begin ttl clk assets s)) = cache s"
  by (simp add: fetchClaimableCapital_begin_def Let_def)

lemma begin_calls:
  "calls (fst (fetchClaimableCapital_begin ttl clk assets s))
     = calls s @ (if assetsNeedingFetch ttl clk assets s = [] then []
                  else [map asset_id (assetsNeedingFetch ttl clk assets s)])"
  by (simp add: fetchClaimableCapital_begin_def Let_def)

lemma begin_inflight:
  "inflightRequests (fst (fetchClaimableCapital_begin ttl clk assets s)) k
     = (if k \<in> asset_id ` set (assetsNeedingFetch ttl clk assets s) then Some (length (calls s))
        else inflightRequests s k)"
  by (simp add: fetchClaimableCapital_begin_def Let_def fold_setInflightRequest_inflight)

lemma begin_loading:
  "loadingBonds (fst (fetchClaimableCapital_begin ttl clk assets s))
     = loadingBonds s \<union> asset_id ` set (assetsNeedingFetch ttl clk assets s)"
  by (simp add: fetchClaimableCapital_begin_def Let_def fold_setLoadingState_loading)

lemma hasCachedValue_cache:
  "cache s' = cache s \<Longrightarrow> hasCachedValue ttl now k s' = hasCachedValue ttl now k s"
  by (simp add: hasCachedValue_def getCachedValue_def)

lemma begin_hasInflight:
  "hasInflightRequest k (fst (fetchClaimableCapital_begin ttl clk assets s))
     \<longleftrightarrow> k \<in> asset_id ` set (assetsNeedingFetch ttl clk assets s) \<or> hasInflightRequest k s"
  by (simp add: hasInflightRequest_def begin_inflight)

lemma needing_not_inflight:
  "a \<in> set (assetsNeedingFetch ttl clk assets s) \<Longrightarrow> \<not> hasInflightRequest (asset_id a) s"
  unfolding assetsNeedingFetch_def by (drule filterAt_holds) simp

lemma needing_after_begin:
  "assetsNeedingFetch ttl clk2 assets2 (fst (fetchClaimableCapital_begin ttl clk1 assets1 s))
     = filterAt (\<lambda>i asset. \<not> hasCachedValue ttl (clk2 i) (asset_id asset) s
                  \<and> \<not> hasInflightRequest (asset_id asset) s
                  \<and> asset_id asset \<notin> asset_id ` set (assetsNeedingFetch ttl clk1 assets1 s))
         0 assets2"
  unfolding assetsNeedingFetch_def [of ttl clk2]
  by (rule filterAt_cong) (auto simp: begin_hasInflight hasCachedValue_cache [OF begin_cache])

text \<open>
  A retry: the clears change nothing that the filter of the fetch reads, so the call
  made is the one that \<^verbatim>\<open>fetchClaimableCapital\<close> makes on the cache as it was, and
  the entries of the given ids are gone once the updaters have run.
\<close>

lemma retry_cache:
  "cache (fst (retryFailedFetches ttl clk assetIds data s))
     = filter (\<lambda>(k, entry). k \<notin> set assetIds) (cache s)"
  by (simp add: retryFailedFetches_def Let_def case_prod_unfold fold_clearCacheEntry_updater)

lemma needing_loading:
  "assetsNeedingFetch ttl clk assets (s\<lparr>loadingBonds := L\<rparr>) = assetsNeedingFetch ttl clk assets s"
  by (simp add: assetsNeedingFetch_def hasCachedValue_def getCachedValue_def
      hasInflightRequest_def)

lemma retry_calls:
  "calls (fst (retryFailedFetches ttl clk assetIds data s))
     = calls s @ (let needing = assetsNeedingFetch ttl clk
                                  (filter (\<lambda>asset. asset_id asset \<in> set assetIds) data) s
                  in if needing = [] then [] else [map asset_id needing])"
  by (simp add: retryFailedFetches_def Let_def case_prod_unfold begin_calls needing_loading)

lemma filterAt_none: "(\<And>j x. x \<in> set xs \<Longrightarrow> \<not> P j x) \<Longrightarrow> filterAt P i xs = []"
  by (induction xs arbitrary: i) auto

lemma retry_skips_cached:
  assumes "\<And>i k. k \<in> set assetIds \<Longrightarrow> hasCachedValue ttl (clk i) k s"
  shows "calls (fst (retryFailedFetches ttl clk assetIds data s)) = calls s"
proof -
  have "assetsNeedingFetch ttl clk (filter (\<lambda>asset. asset_id asset \<in> set assetIds) data) s = []"
    unfolding assetsNeedingFetch_def by (rule filterAt_none) (use assms in auto)
  then show ?thesis by (simp add: retry_calls)
qed

subsection \<open>The two sweeps\<close>

lemma update_fresh_key: "k \<notin> fst ` set al \<Longrightarrow> AList.update k v al = al @ [(k, v)]"
  by (induction al) auto

lemma cleanExpiredLoop_filterAt:
  assumes "distinct (map fst c)" and "fst ` set c \<inter> fst ` set acc = {}"
  shows "cleanExpiredLoop ttl clk i c acc
           = acc @ filterAt (\<lambda>j p. isEntryValid ttl (clk j) (snd p)) i c"
  using assms
proof (induction c arbitrary: i acc)
  case Nil
  then show ?case by simp
next
  case (Cons p rest)
  obtain k e where p: "p = (k, e)" by (cases p)
  have d: "distinct (map fst rest)" using Cons.prems(1) by simp
  have fresh: "k \<notin> fst ` set acc" and k_rest: "k \<notin> fst ` set rest"
    using Cons.prems p by auto
  show ?case
  proof (cases "isEntryValid ttl (clk i) e")
    case True
    have "fst ` set rest \<inter> fst ` set (acc @ [(k, e)]) = {}"
      using Cons.prems(2) k_rest by auto
    from Cons.IH [OF d this, of "Suc i"] True p show ?thesis
      by (simp add: update_fresh_key [OF fresh])
  next
    case False
    have "fst ` set rest \<inter> fst ` set acc = {}" using Cons.prems(2) by auto
    from Cons.IH [OF d this, of "Suc i"] False p show ?thesis by simp
  qed
qed

lemma cleanupLoop_filterAt:
  assumes "distinct (map fst c)" and "fst ` set c \<inter> fst ` set acc = {}"
  shows "cleanupLoop ttl clk i c (acc, h)
           = (acc @ filterAt (\<lambda>j p. clk j - timestamp (snd p) < ttl) i c,
              h \<or> filterAt (\<lambda>j p. clk j - timestamp (snd p) < ttl) i c \<noteq> c)"
  using assms
proof (induction c arbitrary: i acc h)
  case Nil
  then show ?case by simp
next
  case (Cons p rest)
  obtain k e where p: "p = (k, e)" by (cases p)
  have d: "distinct (map fst rest)" using Cons.prems(1) by simp
  have fresh: "k \<notin> fst ` set acc" and k_rest: "k \<notin> fst ` set rest"
    using Cons.prems p by auto
  show ?case
  proof (cases "clk i - timestamp e < ttl")
    case True
    have "fst ` set rest \<inter> fst ` set (acc @ [(k, e)]) = {}"
      using Cons.prems(2) k_rest by auto
    from Cons.IH [OF d this, of "Suc i" h] True p show ?thesis
      by (simp add: update_fresh_key [OF fresh])
  next
    case False
    have "fst ` set rest \<inter> fst ` set acc = {}" using Cons.prems(2) by auto
    from Cons.IH [OF d this, of "Suc i" True] False p show ?thesis
      by (simp add: filterAt_not_longer)
  qed
qed

lemma cleanExpiredEntries_updater_eq:
  "distinct (map fst c) \<Longrightarrow>
     cleanExpiredEntries_updater ttl clk c
       = ReturnNew (filterAt (\<lambda>j p. clk j - timestamp (snd p) < ttl) 0 c)"
  by (simp add: cleanExpiredEntries_updater_def cleanExpiredLoop_filterAt isEntryValid_def)

lemma cleanupInterval_updater_eq:
  "distinct (map fst c) \<Longrightarrow>
     cleanupInterval_updater ttl clk c
       = (if filterAt (\<lambda>j p. clk j - timestamp (snd p) < ttl) 0 c \<noteq> c
          then ReturnNew (filterAt (\<lambda>j p. clk j - timestamp (snd p) < ttl) 0 c)
          else ReturnPrev)"
  by (simp add: cleanupInterval_updater_def cleanupLoop_filterAt)

text \<open>
  The \<^verbatim>\<open>setInterval\<close> callback returns \<^verbatim>\<open>prevCache\<close> itself when every entry is
  valid at every reading of the sweep, so nothing is published.
\<close>

lemma cleanupInterval_updater_nothing_expired:
  assumes "distinct (map fst c)"
    and "\<And>i p. p \<in> set c \<Longrightarrow> clk i - timestamp (snd p) < ttl"
  shows "cleanupInterval_updater ttl clk c = ReturnPrev"
proof -
  have "filterAt (\<lambda>j p. clk j - timestamp (snd p) < ttl) 0 c = c"
    by (rule filterAt_all) (rule assms(2))
  then show ?thesis by (simp add: cleanupInterval_updater_eq [OF assms(1)])
qed

subsection \<open>The keys of the cache stay distinct\<close>

text \<open>
  The lists that the operations build from a list with distinct keys have distinct
  keys: the hypothesis \<open>distinct (map fst (cache s))\<close> of the theorems below holds in
  every state the provider reaches.
\<close>

lemma distinct_initialState: "distinct (map fst (cache initialState))"
  by (simp add: initialState_def)

lemma distinct_setCachedValue:
  "distinct (map fst (cache s)) \<Longrightarrow> distinct (map fst (cache (setCachedValue maxSize now k v err s)))"
  by (simp add: distinct_setCachedValue_updater)

lemma distinct_clearCacheEntry:
  "distinct (map fst (cache s)) \<Longrightarrow> distinct (map fst (cache (clearCacheEntry k s)))"
  by (simp add: distinct_delete)

lemma distinct_forEachAt_setCachedValue:
  "distinct (map fst (cache s)) \<Longrightarrow>
     distinct (map fst (cache (forEachAt (\<lambda>i x. setCachedValue maxSize (clk i) (kf x) (vf x) (ef x))
                                  i xs s)))"
  by (induction xs arbitrary: i s) (simp_all add: distinct_setCachedValue_updater)

lemma set_filterAt: "set (filterAt P i xs) \<subseteq> set xs"
  by (induction xs arbitrary: i) auto

lemma distinct_filterAt: "distinct (map fst c) \<Longrightarrow> distinct (map fst (filterAt P i c))"
proof (induction c arbitrary: i)
  case Nil
  then show ?case by simp
next
  case (Cons p c)
  have "fst p \<notin> fst ` set (filterAt P (Suc i) c)"
    using Cons.prems set_filterAt [of P "Suc i" c] by auto
  with Cons show ?case by simp
qed

lemma distinct_sweeps:
  assumes "distinct (map fst (cache s))"
  shows "distinct (map fst (cache (cleanExpiredEntries ttl clk s)))"
    and "distinct (map fst (cache (cleanupInterval ttl clk s)))"
  using assms
  by (simp_all add: cleanExpiredEntries_def cleanupInterval_def cleanExpiredEntries_updater_eq
      cleanupInterval_updater_eq distinct_filterAt)

lemma distinct_settle:
  assumes "distinct (map fst (cache s))" and "settle maxSize clk assetIds serviceCall s = Inr s'"
  shows "distinct (map fst (cache s'))"
proof (cases serviceCall)
  case (Inl reason)
  with assms(2) have "cache s' = cache (cacheFailures maxSize clk assetIds (fold inflightCleanup assetIds s))"
    by (auto simp: settle_rejected)
  then show ?thesis using assms(1) by (simp add: cacheFailures_def distinct_forEachAt_setCachedValue)
next
  case (Inr results)
  with assms(2) have "cache s' = cache (cacheResults maxSize clk results (fold inflightCleanup assetIds s))"
    by (auto simp: settle_resolved)
  then show ?thesis using assms(1) by (simp add: cacheResults_def distinct_forEachAt_setCachedValue)
qed

lemma distinct_retryFailedFetches:
  "distinct (map fst (cache s)) \<Longrightarrow>
     distinct (map fst (cache (fst (retryFailedFetches ttl clk assetIds data s))))"
proof -
  assume d: "distinct (map fst (cache s))"
  let ?s1 = "s\<lparr>loadingBonds := fold clearLoading_updater assetIds (loadingBonds s)\<rparr>"
  let ?r = "filter (\<lambda>asset. asset_id asset \<in> set assetIds) data"
  have "cache (fst (retryFailedFetches ttl clk assetIds data s))
      = fold clearCacheEntry_updater assetIds (cache (fst (fetchClaimableCapital_begin ttl clk ?r ?s1)))"
    by (simp add: retryFailedFetches_def Let_def case_prod_unfold)
  then show ?thesis using d
    by (simp add: fold_clearCacheEntry_updater distinct_map_filter begin_cache)
qed

section \<open>The claims\<close>

subsection \<open>C1: the size bound\<close>

text \<open>
  C1 says that the cache never holds more than \<^verbatim>\<open>maxSize\<close> entries after a
  \<^verbatim>\<open>setCachedValue\<close>, the oldest entry being evicted first. The code keeps the bound
  where every write reads a clock value strictly later than the timestamps in the
  cache (\<open>setCachedValue_updater_invariant\<close>), and breaks it otherwise:
  \<^verbatim>\<open>oldestTimestamp\<close> starts as \<^verbatim>\<open>Date.now()\<close> and the comparison is strict, so an
  entry written at the current reading is never a candidate
  (\<open>evictOldest_keeps_recent\<close>). With \<^verbatim>\<open>maxSize = 2\<close>, three keys written at the
  same reading 1000, as the results of one batch are, all stay: the cache holds three
  entries.
\<close>

theorem setCachedValue_exceeds_maxSize:
  "cache (setCachedValue 2 1000 ''C'' ''30'' None
           (setCachedValue 2 1000 ''B'' ''20'' None
             (setCachedValue 2 1000 ''A'' ''10'' None initialState)))
     = [(''A'', \<lparr>value' = ''10'', timestamp = 1000, error = None\<rparr>),
        (''B'', \<lparr>value' = ''20'', timestamp = 1000, error = None\<rparr>),
        (''C'', \<lparr>value' = ''30'', timestamp = 1000, error = None\<rparr>)]
   \<and> \<not> int (length (cache (setCachedValue 2 1000 ''C'' ''30'' None
           (setCachedValue 2 1000 ''B'' ''20'' None
             (setCachedValue 2 1000 ''A'' ''10'' None initialState))))) \<le> 2"
  by (simp add: setCachedValue_def setCachedValue_updater_def evictOldest_def initialState_def)

subsection \<open>C2: two overlapping requests, one call for each key\<close>

text \<open>
  C2. \<^verbatim>\<open>fetchClaimableCapital\<close> is called for \<open>assets1\<close> and, before any fetch
  has settled, for \<open>assets2\<close>. Each call invokes the service at most once, for the ids
  it needs (\<open>ids1\<close>, \<open>ids2\<close>). The second call needs exactly the assets that are neither
  cached nor in flight, where in flight means in flight before the first call or
  requested by it; so no id is in both batches, every id of either batch is in exactly
  one of the new service calls, and it is registered as in flight.
\<close>

theorem fetch_dedup:
  "(let ids1 = map asset_id (assetsNeedingFetch ttl clk1 assets1 s);
        s1 = fst (fetchClaimableCapital_begin ttl clk1 assets1 s);
        ids2 = map asset_id (assetsNeedingFetch ttl clk2 assets2 s1);
        s2 = fst (fetchClaimableCapital_begin ttl clk2 assets2 s1)
    in calls s2 = calls s @ (if ids1 = [] then [] else [ids1]) @ (if ids2 = [] then [] else [ids2])
     \<and> set ids1 \<inter> set ids2 = {}
     \<and> ids2 = map asset_id
           (filterAt (\<lambda>i asset. \<not> hasCachedValue ttl (clk2 i) (asset_id asset) s
                       \<and> \<not> hasInflightRequest (asset_id asset) s
                       \<and> asset_id asset \<notin> set ids1) 0 assets2)
     \<and> (\<forall>k\<in>set ids1 \<union> set ids2.
           length (filter (\<lambda>call. k \<in> set call) (drop (length (calls s)) (calls s2))) = 1
           \<and> hasInflightRequest k s2))"
proof -
  define ids1 where "ids1 = map asset_id (assetsNeedingFetch ttl clk1 assets1 s)"
  define s1 where "s1 = fst (fetchClaimableCapital_begin ttl clk1 assets1 s)"
  define ids2 where "ids2 = map asset_id (assetsNeedingFetch ttl clk2 assets2 s1)"
  define s2 where "s2 = fst (fetchClaimableCapital_begin ttl clk2 assets2 s1)"
  have n1: "ids1 = [] \<longleftrightarrow> assetsNeedingFetch ttl clk1 assets1 s = []"
    and n2: "ids2 = [] \<longleftrightarrow> assetsNeedingFetch ttl clk2 assets2 s1 = []"
    by (simp_all add: ids1_def ids2_def)
  have calls1: "calls s1 = calls s @ (if ids1 = [] then [] else [ids1])"
    unfolding s1_def ids1_def by (simp add: begin_calls)
  have calls2: "calls s2 = calls s1 @ (if ids2 = [] then [] else [ids2])"
    unfolding s2_def ids2_def by (simp add: begin_calls)
  have c: "calls s2 = calls s @ (if ids1 = [] then [] else [ids1]) @ (if ids2 = [] then [] else [ids2])"
    unfolding calls2 calls1 by simp
  have ch: "ids2 = map asset_id
           (filterAt (\<lambda>i asset. \<not> hasCachedValue ttl (clk2 i) (asset_id asset) s
                       \<and> \<not> hasInflightRequest (asset_id asset) s
                       \<and> asset_id asset \<notin> set ids1) 0 assets2)"
    unfolding ids2_def s1_def needing_after_begin ids1_def by simp
  have disj: "set ids1 \<inter> set ids2 = {}"
  proof -
    have "k \<notin> set ids1" if "k \<in> set ids2" for k
    proof -
      from that obtain a where a: "a \<in> set (assetsNeedingFetch ttl clk2 assets2 s1)" "k = asset_id a"
        by (auto simp: ids2_def)
      from needing_not_inflight [OF a(1)] have "\<not> hasInflightRequest k s1" using a(2) by simp
      then show ?thesis by (simp add: s1_def begin_hasInflight ids1_def)
    qed
    then show ?thesis by auto
  qed
  have once: "length (filter (\<lambda>call. k \<in> set call) (drop (length (calls s)) (calls s2))) = 1
      \<and> hasInflightRequest k s2" if "k \<in> set ids1 \<union> set ids2" for k
  proof -
    have infl: "hasInflightRequest k s2 \<longleftrightarrow> k \<in> set ids2 \<or> k \<in> set ids1 \<or> hasInflightRequest k s"
      by (simp add: s2_def s1_def begin_hasInflight ids1_def ids2_def)
    from that disj consider "k \<in> set ids1" "k \<notin> set ids2" | "k \<in> set ids2" "k \<notin> set ids1"
      by auto
    then show ?thesis
    proof cases
      case 1
      then have "ids1 \<noteq> []" by auto
      with 1 infl show ?thesis unfolding c by simp
    next
      case 2
      then have "ids2 \<noteq> []" by auto
      with 2 infl show ?thesis unfolding c by simp
    qed
  qed
  from c disj ch once show ?thesis
    unfolding Let_def ids1_def [symmetric] s1_def [symmetric] ids2_def [symmetric] s2_def [symmetric]
    by blast
qed

text \<open>
  The example of the specification: \<^verbatim>\<open>{"A", "B"}\<close> then \<^verbatim>\<open>{"B", "C"}\<close> on the
  empty provider gives the calls \<^verbatim>\<open>["A", "B"]\<close> and \<^verbatim>\<open>["C"]\<close>, and \<^verbatim>\<open>"B"\<close> is
  in one call.
\<close>

theorem fetch_dedup_witness:
  "calls (fst (fetchClaimableCapital_begin 300000 (\<lambda>i. 1000)
          [\<lparr>asset_id = ''B''\<rparr>, \<lparr>asset_id = ''C''\<rparr>]
          (fst (fetchClaimableCapital_begin 300000 (\<lambda>i. 1000)
             [\<lparr>asset_id = ''A''\<rparr>, \<lparr>asset_id = ''B''\<rparr>] initialState))))
     = [[''A'', ''B''], [''C'']]
   \<and> length (filter (\<lambda>call. ''B'' \<in> set call)
        (drop (length (calls initialState))
          (calls (fst (fetchClaimableCapital_begin 300000 (\<lambda>i. 1000)
            [\<lparr>asset_id = ''B''\<rparr>, \<lparr>asset_id = ''C''\<rparr>]
            (fst (fetchClaimableCapital_begin 300000 (\<lambda>i. 1000)
               [\<lparr>asset_id = ''A''\<rparr>, \<lparr>asset_id = ''B''\<rparr>] initialState))))))) = 1"
proof -
  have ids1: "map asset_id (assetsNeedingFetch 300000 (\<lambda>i. 1000)
        [\<lparr>asset_id = ''A''\<rparr>, \<lparr>asset_id = ''B''\<rparr>] initialState) = [''A'', ''B'']"
    by (simp add: assetsNeedingFetch_def hasCachedValue_def getCachedValue_def
        hasInflightRequest_def initialState_def)
  have ids2: "map asset_id (assetsNeedingFetch 300000 (\<lambda>i. 1000)
        [\<lparr>asset_id = ''B''\<rparr>, \<lparr>asset_id = ''C''\<rparr>]
        (fst (fetchClaimableCapital_begin 300000 (\<lambda>i. 1000)
               [\<lparr>asset_id = ''A''\<rparr>, \<lparr>asset_id = ''B''\<rparr>] initialState))) = [''C'']"
    by (simp add: fetchClaimableCapital_begin_def assetsNeedingFetch_def hasCachedValue_def
        getCachedValue_def hasInflightRequest_def setInflightRequest_def setLoadingState_def
        initialState_def Let_def)
  have c0: "calls initialState = []" by (simp add: initialState_def)
  from fetch_dedup [of 300000 "\<lambda>i. 1000" "[\<lparr>asset_id = ''A''\<rparr>, \<lparr>asset_id = ''B''\<rparr>]"
      initialState "\<lambda>i. 1000" "[\<lparr>asset_id = ''B''\<rparr>, \<lparr>asset_id = ''C''\<rparr>]"]
  show ?thesis unfolding Let_def ids1 ids2 c0 by simp
qed

subsection \<open>C3: an expired entry reads as absent, and the read changes nothing\<close>

text \<open>
  C3. For every key, \<^verbatim>\<open>getCachedValue\<close> returns \<^verbatim>\<open>null\<close> as soon as
  \<open>now - timestamp \<ge> ttl\<close>, whether or not a sweep has run: the entry is still in
  the map, the state after the read is the state before it, and the expired entry is
  still stored under its key.
\<close>

theorem getCachedValue_expired_absent:
  assumes "map_of (cache s) k = Some entry" and "ttl \<le> now - timestamp entry"
  shows "getCachedValue ttl now k s = (None, s)
       \<and> map_of (cache (snd (getCachedValue ttl now k s))) k = Some entry"
  using assms by (simp add: getCachedValue_def isEntryValid_def)

text \<open>
  An entry written at 1000 with a time to live of 300000 is read at 301000.
\<close>

theorem getCachedValue_expired_absent_witness:
  "getCachedValue 300000 301000 ''A''
     (initialState\<lparr>cache := [(''A'', \<lparr>value' = ''10'', timestamp = 1000, error = None\<rparr>)]\<rparr>)
   = (None, initialState\<lparr>cache := [(''A'', \<lparr>value' = ''10'', timestamp = 1000, error = None\<rparr>)]\<rparr>)
   \<and> map_of (cache (snd (getCachedValue 300000 301000 ''A''
        (initialState\<lparr>cache := [(''A'', \<lparr>value' = ''10'', timestamp = 1000, error = None\<rparr>)]\<rparr>)))) ''A''
      = Some \<lparr>value' = ''10'', timestamp = 1000, error = None\<rparr>"
  using getCachedValue_expired_absent
    [of "initialState\<lparr>cache := [(''A'', \<lparr>value' = ''10'', timestamp = 1000, error = None\<rparr>)]\<rparr>"
        "''A''" "\<lparr>value' = ''10'', timestamp = 1000, error = None\<rparr>" 300000 301000]
  by simp

subsection \<open>C4: a rejected batch leaves failure entries\<close>




subsection \<open>C5: a cleared key is written again when its fetch resolves\<close>

text \<open>
  C5, as the code has it. \<^verbatim>\<open>clearCacheEntry\<close> leaves the in-flight registrations
  and the calls made as they are, so the fetch of a cleared key is not cancelled. When
  the fetch then resolves, \<^verbatim>\<open>results.forEach\<close> writes every result through
  \<^verbatim>\<open>setCachedValue\<close>, whatever was cleared. The result for the key, at any place
  \<open>i\<close> of the batch, is what a read before the new entry expires returns, provided
  the results have keys of their own and the writes of the batch need not evict one
  another: the cache, as the clear has left it, has room for all results; or the
  results are no more than \<^verbatim>\<open>maxSize\<close>, every entry in the cache is strictly older
  than the first write of the batch, and no write of the batch reads an earlier clock
  value than the first.
\<close>

theorem clear_then_late_resolve:
  assumes "distinct (map fst (cache s))"
    and "distinct (map bondId results)"
    and "int (length (cache (clearCacheEntry k s))) + int (length results) \<le> maxSize
         \<or> (int (length results) \<le> maxSize
            \<and> (\<forall>p\<in>set (cache (clearCacheEntry k s)). timestamp (snd p) < clk 0)
            \<and> (\<forall>j<length results. clk 0 \<le> clk j))"
    and "i < length results" and "bondId (results ! i) = k"
    and "now - clk i < ttl"
  shows "inflightRequests (clearCacheEntry k s) = inflightRequests s
       \<and> calls (clearCacheEntry k s) = calls s
       \<and> (\<exists>s'. settle maxSize clk assetIds (Inr results) (clearCacheEntry k s) = Inr s'
              \<and> fst (getCachedValue ttl now k s')
                  = Some \<lparr>value' = claimableAmount (results ! i), timestamp = clk i,
                           error = fetchError (results ! i)\<rparr>)"
proof -
  let ?s1 = "fold inflightCleanup assetIds (clearCacheEntry k s)"
  let ?s2 = "cacheResults maxSize clk results ?s1"
  let ?s3 = "fold (\<lambda>assetId. setLoadingState assetId False) assetIds ?s2"
  have c: "cache ?s1 = cache (clearCacheEntry k s)" by simp
  have d: "distinct (map fst (cache ?s1))"
    unfolding c using assms(1) by (rule distinct_clearCacheEntry)
  have p: "int (length (cache ?s1)) + int (length results) \<le> maxSize
         \<or> (int (length results) \<le> maxSize
            \<and> (\<forall>p\<in>set (cache ?s1). timestamp (snd p) < clk 0)
            \<and> (\<forall>j<length results. clk 0 \<le> clk j))"
    unfolding c by (rule assms(3))
  have "map_of (cache ?s2) (bondId (results ! i))
      = Some \<lparr>value' = claimableAmount (results ! i), timestamp = clk i,
               error = fetchError (results ! i)\<rparr>"
    using d assms(2) p assms(4) by (rule cacheResults_holds)
  then have "fst (getCachedValue ttl now k ?s3)
      = Some \<lparr>value' = claimableAmount (results ! i), timestamp = clk i,
               error = fetchError (results ! i)\<rparr>"
    using assms(5,6) by (simp add: getCachedValue_def isEntryValid_def)
  moreover have "settle maxSize clk assetIds (Inr results) (clearCacheEntry k s) = Inr ?s3"
    by (rule settle_resolved)
  ultimately show ?thesis by simp
qed

text \<open>
  With a time to live of 500, \<^verbatim>\<open>"A"\<close> holds an entry written at 0 and is requested
  at 1000 together with \<^verbatim>\<open>"B"\<close>; both are in flight as call 0. \<^verbatim>\<open>"A"\<close> is
  cleared, and the call resolves with the values \<^verbatim>\<open>"5"\<close> for \<^verbatim>\<open>"A"\<close> and
  \<^verbatim>\<open>"7"\<close> for \<^verbatim>\<open>"B"\<close>, written at 2000 and 2001. A read at 2100 returns
  \<^verbatim>\<open>"5"\<close> for \<^verbatim>\<open>"A"\<close>, the first result of the batch.
\<close>

theorem clear_then_late_resolve_witness:
  "inflightRequests (clearCacheEntry ''A'' (fst (fetchClaimableCapital_begin 500 (\<lambda>i. 1000)
       [\<lparr>asset_id = ''A''\<rparr>, \<lparr>asset_id = ''B''\<rparr>]
       (initialState\<lparr>cache := [(''A'', \<lparr>value' = ''1'', timestamp = 0, error = None\<rparr>)]\<rparr>)))) ''A''
     = Some 0
   \<and> (\<exists>s'. settle 1000 (\<lambda>i. 2000 + int i) [''A'', ''B'']
              (Inr [\<lparr>bondId = ''A'', claimableAmount = ''5'', fetchError = None\<rparr>,
                    \<lparr>bondId = ''B'', claimableAmount = ''7'', fetchError = None\<rparr>])
              (clearCacheEntry ''A'' (fst (fetchClaimableCapital_begin 500 (\<lambda>i. 1000)
                 [\<lparr>asset_id = ''A''\<rparr>, \<lparr>asset_id = ''B''\<rparr>]
                 (initialState\<lparr>cache := [(''A'', \<lparr>value' = ''1'', timestamp = 0, error = None\<rparr>)]\<rparr>))))
            = Inr s'
          \<and> fst (getCachedValue 500 2100 ''A'' s')
              = Some \<lparr>value' = ''5'', timestamp = 2000, error = None\<rparr>)"
proof -
  let ?s = "fst (fetchClaimableCapital_begin 500 (\<lambda>i. 1000)
       [\<lparr>asset_id = ''A''\<rparr>, \<lparr>asset_id = ''B''\<rparr>]
       (initialState\<lparr>cache := [(''A'', \<lparr>value' = ''1'', timestamp = 0, error = None\<rparr>)]\<rparr>))"
  let ?rs = "[\<lparr>bondId = ''A'', claimableAmount = ''5'', fetchError = None\<rparr>,
              \<lparr>bondId = ''B'', claimableAmount = ''7'', fetchError = None\<rparr>]"
  have b: "inflightRequests ?s ''A'' = Some 0"
    by (simp add: fetchClaimableCapital_begin_def assetsNeedingFetch_def hasCachedValue_def
        getCachedValue_def isEntryValid_def hasInflightRequest_def initialState_def Let_def)
  have h1: "distinct (map fst (cache ?s))" by simp
  have h2: "distinct (map bondId ?rs)" by simp
  have h3: "int (length (cache (clearCacheEntry ''A'' ?s))) + int (length ?rs) \<le> 1000
         \<or> (int (length ?rs) \<le> 1000
            \<and> (\<forall>p\<in>set (cache (clearCacheEntry ''A'' ?s)). timestamp (snd p) < (\<lambda>i. 2000 + int i) 0)
            \<and> (\<forall>j<length ?rs. (\<lambda>i. 2000 + int i) 0 \<le> (\<lambda>i. 2000 + int i) j))"
    by simp
  have h4: "0 < length ?rs" by simp
  have h5: "bondId (?rs ! 0) = ''A''" by simp
  have h6: "2100 - (\<lambda>i. 2000 + int i) 0 < (500 :: int)" by simp
  from clear_then_late_resolve [OF h1 h2 h3 h4 h5 h6, of "[''A'', ''B'']"] b
  show ?thesis by simp
qed

text \<open>
  Without the proviso the claim fails. With \<^verbatim>\<open>maxSize = 1\<close> the batch
  \<^verbatim>\<open>["A", "B"]\<close> is in flight, \<^verbatim>\<open>"A"\<close> is cleared, and the call resolves with
  \<^verbatim>\<open>"5"\<close> for \<^verbatim>\<open>"A"\<close> and \<^verbatim>\<open>"7"\<close> for \<^verbatim>\<open>"B"\<close>. The entry of \<^verbatim>\<open>"A"\<close> is
  written at 2000, and the write for \<^verbatim>\<open>"B"\<close> at 2001 finds the cache full and
  evicts it: afterwards \<^verbatim>\<open>"A"\<close> has no entry, and a read of it returns \<^verbatim>\<open>null\<close>.
\<close>

theorem clear_then_late_resolve_counterexample:
  "map_sum id cache
     (settle 1 (\<lambda>i. 2000 + int i) [''A'', ''B'']
        (Inr [\<lparr>bondId = ''A'', claimableAmount = ''5'', fetchError = None\<rparr>,
              \<lparr>bondId = ''B'', claimableAmount = ''7'', fetchError = None\<rparr>])
        (clearCacheEntry ''A''
           (fst (fetchClaimableCapital_begin 300000 (\<lambda>i. 1000)
                   [\<lparr>asset_id = ''A''\<rparr>, \<lparr>asset_id = ''B''\<rparr>] initialState))))
   = Inr [(''B'', \<lparr>value' = ''7'', timestamp = 2001, error = None\<rparr>)]"
  by (simp add: fetchClaimableCapital_begin_def assetsNeedingFetch_def hasCachedValue_def
      getCachedValue_def hasInflightRequest_def initialState_def Let_def settle_def
      fetchClaimableCapital_resume_def operationPromise_def cacheResults_def
      clearCacheEntry_def clearCacheEntry_updater_def clearLoading_updater_def
      setCachedValue_def setCachedValue_updater_def evictOldest_def)

subsection \<open>C6: a sweep keeps exactly the valid entries\<close>

text \<open>
  C6. After a sweep, by \<^verbatim>\<open>cleanExpiredEntries\<close> or by the \<^verbatim>\<open>setInterval\<close>
  callback, the cache holds exactly the entries that were valid at the clock reading
  taken for them, in their order. For a sweep at one reading \<open>now\<close> these are exactly
  the entries with \<open>now - timestamp < ttl\<close>: every expired entry is removed and no
  valid entry is.
\<close>

theorem sweep_keeps_exactly_valid:
  assumes "distinct (map fst (cache s))"
  shows "cache (cleanExpiredEntries ttl clk s)
           = filterAt (\<lambda>i (k, entry). clk i - timestamp entry < ttl) 0 (cache s)
       \<and> cache (cleanupInterval ttl clk s)
           = filterAt (\<lambda>i (k, entry). clk i - timestamp entry < ttl) 0 (cache s)
       \<and> cache (cleanExpiredEntries ttl (\<lambda>i. now) s)
           = filter (\<lambda>(k, entry). now - timestamp entry < ttl) (cache s)
       \<and> cache (cleanupInterval ttl (\<lambda>i. now) s)
           = filter (\<lambda>(k, entry). now - timestamp entry < ttl) (cache s)"
proof -
  have e: "cache (cleanExpiredEntries ttl clk' s)
      = filterAt (\<lambda>j p. clk' j - timestamp (snd p) < ttl) 0 (cache s)" for clk'
    by (simp add: cleanExpiredEntries_def cleanExpiredEntries_updater_eq [OF assms])
  have i: "cache (cleanupInterval ttl clk' s)
      = filterAt (\<lambda>j p. clk' j - timestamp (snd p) < ttl) 0 (cache s)" for clk'
    by (simp add: cleanupInterval_def cleanupInterval_updater_eq [OF assms])
  show ?thesis
    unfolding filterAt_case_prod e i by (simp add: filterAt_valid_const)
qed

theorem sweep_keeps_exactly_valid_witness:
  "cache (cleanExpiredEntries 300000 (\<lambda>i. 301500)
       (initialState\<lparr>cache := [(''A'', \<lparr>value' = ''10'', timestamp = 1000, error = None\<rparr>),
                                (''B'', \<lparr>value' = ''20'', timestamp = 2000, error = None\<rparr>)]\<rparr>))
     = [(''B'', \<lparr>value' = ''20'', timestamp = 2000, error = None\<rparr>)]
   \<and> cache (cleanupInterval 300000 (\<lambda>i. 301500)
       (initialState\<lparr>cache := [(''A'', \<lparr>value' = ''10'', timestamp = 1000, error = None\<rparr>),
                                (''B'', \<lparr>value' = ''20'', timestamp = 2000, error = None\<rparr>)]\<rparr>))
     = [(''B'', \<lparr>value' = ''20'', timestamp = 2000, error = None\<rparr>)]"
  using sweep_keeps_exactly_valid
    [of "initialState\<lparr>cache := [(''A'', \<lparr>value' = ''10'', timestamp = 1000, error = None\<rparr>),
                                (''B'', \<lparr>value' = ''20'', timestamp = 2000, error = None\<rparr>)]\<rparr>"
        300000 "\<lambda>i. 301500" 301500]
  by simp

subsection \<open>C7: a sweep that finds nothing expired\<close>

text \<open>
  C7 says that a sweep publishes no state update when nothing has expired. The
  \<^verbatim>\<open>setInterval\<close> callback does so: it returns \<^verbatim>\<open>prevCache\<close> itself
  (\<open>cleanupInterval_updater_nothing_expired\<close>). \<^verbatim>\<open>cleanExpiredEntries\<close> has no such
  test and returns the \<^verbatim>\<open>Map\<close> it built, so an update is published although
  nothing expired. The entry written at 1000 is valid at 1001 under a time to live of
  300000; \<^verbatim>\<open>cleanExpiredEntries\<close> returns a new map with the same entry, where the
  \<^verbatim>\<open>setInterval\<close> callback returns \<^verbatim>\<open>prevCache\<close>.
\<close>

theorem cleanExpiredEntries_always_publishes:
  "cleanExpiredEntries_updater 300000 (\<lambda>i. 1001)
       [(''A'', \<lparr>value' = ''10'', timestamp = 1000, error = None\<rparr>)]
     = ReturnNew [(''A'', \<lparr>value' = ''10'', timestamp = 1000, error = None\<rparr>)]
   \<and> cleanupInterval_updater 300000 (\<lambda>i. 1001)
       [(''A'', \<lparr>value' = ''10'', timestamp = 1000, error = None\<rparr>)]
     = ReturnPrev"
  by (simp add: cleanExpiredEntries_updater_def cleanupInterval_updater_def isEntryValid_def)

subsection \<open>C8: the fetch never rejects\<close>

text \<open>
  C8, as the code has it. The promise that \<^verbatim>\<open>fetchClaimableCapital\<close> returns is
  never rejected. Its synchronous part has no operation that throws; after
  \<^verbatim>\<open>await operationPromise\<close> every outcome of the service call, a rejection
  included, ends in a fulfilled promise; and so does the wait on the handles of other
  calls. Before the function returns, the \<^verbatim>\<open>catch\<close> block writes a failure entry
  (value \<^verbatim>\<open>"0"\<close>, error \<^verbatim>\<open>"Failed to load"\<close>) for every id of the batch. Every
  id of the batch holds its failure entry afterwards provided the writes of the batch
  need not evict one another: the cache has room for the whole batch; or the ids are
  distinct and no more than \<^verbatim>\<open>maxSize\<close>, every entry in the cache is strictly older
  than the first write of the batch, and no write of the batch reads an earlier clock
  value than the first. In every case the last id of the batch holds its failure
  entry, and every id of the batch holds one or, where a later write of the batch
  evicted it, no entry.
\<close>

theorem fetchClaimableCapital_never_rejects:
  "\<not> isl (fetchClaimableCapital_resume maxSize clk assetIds serviceCall s)
   \<and> \<not> isl (fetchClaimableCapital_afterWait outcomes s)
   \<and> (\<exists>s'. fetchClaimableCapital_resume maxSize clk assetIds (Inl reason) s = Inr s'
         \<and> (distinct (map fst (cache s))
             \<and> (int (length (cache s)) + int (length assetIds) \<le> maxSize
                \<or> (distinct assetIds \<and> int (length assetIds) \<le> maxSize
                   \<and> (\<forall>p\<in>set (cache s). timestamp (snd p) < clk 0)
                   \<and> (\<forall>i<length assetIds. clk 0 \<le> clk i)))
             \<longrightarrow> (\<forall>k\<in>set assetIds.
                     \<exists>e. map_of (cache s') k = Some e \<and> value' e = ''0''
                         \<and> error e = Some ''Failed to load''))
         \<and> (\<forall>k\<in>set assetIds.
               map_of (cache s') k = None
               \<or> (\<exists>e. map_of (cache s') k = Some e \<and> value' e = ''0''
                     \<and> error e = Some ''Failed to load''))
         \<and> (assetIds \<noteq> [] \<longrightarrow>
               map_of (cache s') (last assetIds)
                 = Some \<lparr>value' = ''0'', timestamp = clk (length assetIds - 1),
                          error = Some ''Failed to load''\<rparr>))"
proof (intro conjI)
  show "\<not> isl (fetchClaimableCapital_resume maxSize clk assetIds serviceCall s)"
    by (cases serviceCall) (simp_all add: fetchClaimableCapital_resume_def operationPromise_def)
  show "\<not> isl (fetchClaimableCapital_afterWait outcomes s)"
    by (simp add: fetchClaimableCapital_afterWait_def promiseAllSettled_def)
  let ?s' = "fold (\<lambda>assetId. setLoadingState assetId False) assetIds
               (cacheFailures maxSize clk assetIds s)"
  have r: "fetchClaimableCapital_resume maxSize clk assetIds (Inl reason) s = Inr ?s'"
    by (simp add: fetchClaimableCapital_resume_def operationPromise_def)
  have c: "cache ?s' = cache (cacheFailures maxSize clk assetIds s)" by simp
  have a: "distinct (map fst (cache s))
             \<and> (int (length (cache s)) + int (length assetIds) \<le> maxSize
                \<or> (distinct assetIds \<and> int (length assetIds) \<le> maxSize
                   \<and> (\<forall>p\<in>set (cache s). timestamp (snd p) < clk 0)
                   \<and> (\<forall>i<length assetIds. clk 0 \<le> clk i)))
             \<longrightarrow> (\<forall>k\<in>set assetIds.
                     \<exists>e. map_of (cache ?s') k = Some e \<and> value' e = ''0''
                         \<and> error e = Some ''Failed to load'')"
    unfolding c using cacheFailures_holds [of s assetIds maxSize clk] by blast
  have b: "\<forall>k\<in>set assetIds.
               map_of (cache ?s') k = None
               \<or> (\<exists>e. map_of (cache ?s') k = Some e \<and> value' e = ''0''
                     \<and> error e = Some ''Failed to load'')"
    unfolding c by (rule cacheFailures_written_or_gone)
  have l: "assetIds \<noteq> [] \<longrightarrow>
               map_of (cache ?s') (last assetIds)
                 = Some \<lparr>value' = ''0'', timestamp = clk (length assetIds - 1),
                          error = Some ''Failed to load''\<rparr>"
    unfolding c using cacheFailures_last [of assetIds maxSize clk s] by blast
  from r a b l
  show "\<exists>s'. fetchClaimableCapital_resume maxSize clk assetIds (Inl reason) s = Inr s'
         \<and> (distinct (map fst (cache s))
             \<and> (int (length (cache s)) + int (length assetIds) \<le> maxSize
                \<or> (distinct assetIds \<and> int (length assetIds) \<le> maxSize
                   \<and> (\<forall>p\<in>set (cache s). timestamp (snd p) < clk 0)
                   \<and> (\<forall>i<length assetIds. clk 0 \<le> clk i)))
             \<longrightarrow> (\<forall>k\<in>set assetIds.
                     \<exists>e. map_of (cache s') k = Some e \<and> value' e = ''0''
                         \<and> error e = Some ''Failed to load''))
         \<and> (\<forall>k\<in>set assetIds.
               map_of (cache s') k = None
               \<or> (\<exists>e. map_of (cache s') k = Some e \<and> value' e = ''0''
                     \<and> error e = Some ''Failed to load''))
         \<and> (assetIds \<noteq> [] \<longrightarrow>
               map_of (cache s') (last assetIds)
                 = Some \<lparr>value' = ''0'', timestamp = clk (length assetIds - 1),
                          error = Some ''Failed to load''\<rparr>)"
    by blast
qed

text \<open>
  The cache is full (\<^verbatim>\<open>maxSize = 2\<close>) with two entries written at 500 and 600.
  The batch \<^verbatim>\<open>["A", "B"]\<close> rejects, and its two failure entries are written at
  2000 and 2001: the promise is fulfilled, each write evicts an old entry, and both
  ids hold their failure entry.
\<close>

theorem fetchClaimableCapital_never_rejects_witness:
  "\<not> isl (fetchClaimableCapital_resume 2 (\<lambda>i. 2000 + int i) [''A'', ''B'']
              (Inl ''Network Error'')
              (initialState\<lparr>cache := [(''X'', \<lparr>value' = ''7'', timestamp = 500, error = None\<rparr>),
                                       (''Y'', \<lparr>value' = ''8'', timestamp = 600, error = None\<rparr>)]\<rparr>))
   \<and> \<not> isl (fetchClaimableCapital_afterWait [Inl ''Network Error'']
              (initialState\<lparr>cache := [(''X'', \<lparr>value' = ''7'', timestamp = 500, error = None\<rparr>),
                                       (''Y'', \<lparr>value' = ''8'', timestamp = 600, error = None\<rparr>)]\<rparr>))
   \<and> (\<exists>s'. fetchClaimableCapital_resume 2 (\<lambda>i. 2000 + int i) [''A'', ''B'']
              (Inl ''Network Error'')
              (initialState\<lparr>cache := [(''X'', \<lparr>value' = ''7'', timestamp = 500, error = None\<rparr>),
                                       (''Y'', \<lparr>value' = ''8'', timestamp = 600, error = None\<rparr>)]\<rparr>)
            = Inr s'
         \<and> (\<exists>e. map_of (cache s') ''A'' = Some e \<and> value' e = ''0''
                 \<and> error e = Some ''Failed to load'')
         \<and> map_of (cache s') ''B''
              = Some \<lparr>value' = ''0'', timestamp = 2001, error = Some ''Failed to load''\<rparr>)"
proof -
  let ?s = "initialState\<lparr>cache := [(''X'', \<lparr>value' = ''7'', timestamp = 500, error = None\<rparr>),
                                   (''Y'', \<lparr>value' = ''8'', timestamp = 600, error = None\<rparr>)]\<rparr>"
  have h: "distinct (map fst (cache ?s))
         \<and> (int (length (cache ?s)) + int (length [''A'', ''B'']) \<le> 2
            \<or> (distinct [''A'', ''B''] \<and> int (length [''A'', ''B'']) \<le> 2
               \<and> (\<forall>p\<in>set (cache ?s). timestamp (snd p) < (\<lambda>i. 2000 + int i) 0)
               \<and> (\<forall>i<length [''A'', ''B'']. (\<lambda>i. 2000 + int i) 0 \<le> (\<lambda>i. 2000 + int i) i)))"
    by simp
  from fetchClaimableCapital_never_rejects
    [of 2 "\<lambda>i. 2000 + int i" "[''A'', ''B'']" "Inl ''Network Error''" ?s
        "[Inl ''Network Error'']" "''Network Error''"] h
  show ?thesis by auto
qed

text \<open>
  Without the proviso a rejection does not leave an error entry for every key. With
  \<^verbatim>\<open>maxSize = 2\<close> and an empty cache the batch \<^verbatim>\<open>["A", "B", "C"]\<close> rejects: the
  failure entries of \<^verbatim>\<open>"A"\<close> and \<^verbatim>\<open>"B"\<close> are written at 2000 and 2001, and the
  write for \<^verbatim>\<open>"C"\<close> at 2002 finds the cache full and evicts the entry of
  \<^verbatim>\<open>"A"\<close>. The promise is fulfilled, and \<^verbatim>\<open>"A"\<close> has no entry.
\<close>

theorem fetchClaimableCapital_never_rejects_counterexample:
  "map_sum id cache
     (fetchClaimableCapital_resume 2 (\<lambda>i. 2000 + int i) [''A'', ''B'', ''C'']
        (Inl ''timeout'') initialState)
   = Inr [(''B'', \<lparr>value' = ''0'', timestamp = 2001, error = Some ''Failed to load''\<rparr>),
          (''C'', \<lparr>value' = ''0'', timestamp = 2002, error = Some ''Failed to load''\<rparr>)]"
  by (simp add: initialState_def fetchClaimableCapital_resume_def operationPromise_def
      cacheFailures_def setCachedValue_def setCachedValue_updater_def evictOldest_def)

subsection \<open>C9: a retry reads the cache before its clears have run\<close>

text \<open>
  C9 says that \<^verbatim>\<open>retryFailedFetches\<close> removes the entries of the given keys and
  then makes one new call for them. \<^verbatim>\<open>"B"\<close> holds a failure entry written at 1000
  and is retried at 2000, within the time to live, with the items \<^verbatim>\<open>"A"\<close> and
  \<^verbatim>\<open>"B"\<close>. The clear of \<^verbatim>\<open>"B"\<close> passes its updater, and the filter of
  \<^verbatim>\<open>fetchClaimableCapital\<close> runs before it: \<^verbatim>\<open>cacheRef.current\<close> still holds
  the failure entry, which is valid, so nothing needs a fetch and the function returns
  without a call (lemma \<open>retry_skips_cached\<close> in general). The entry of \<^verbatim>\<open>"B"\<close> is
  removed afterwards, and no fetch is on its way for it. The comment in the source,
  \<^verbatim>\<open>Clear error state before retrying\<close>, states the order that was meant.
\<close>

theorem retryFailedFetches_makes_no_call:
  "retryFailedFetches 300000 (\<lambda>i. 2000) [''B'']
       [\<lparr>asset_id = ''A''\<rparr>, \<lparr>asset_id = ''B''\<rparr>]
       (initialState\<lparr>cache := [(''A'', \<lparr>value' = ''10'', timestamp = 1000, error = None\<rparr>),
                                (''B'', \<lparr>value' = ''0'', timestamp = 1000, error = Some ''Failed to load''\<rparr>)],
                      calls := [[''A'', ''B'']]\<rparr>)
   = (initialState\<lparr>cache := [(''A'', \<lparr>value' = ''10'', timestamp = 1000, error = None\<rparr>)],
                    calls := [[''A'', ''B'']]\<rparr>,
      Returned)"
  by (simp add: retryFailedFetches_def fetchClaimableCapital_begin_def assetsNeedingFetch_def
      hasCachedValue_def getCachedValue_def isEntryValid_def hasInflightRequest_def
      initialState_def Let_def clearCacheEntry_updater_def clearLoading_updater_def)

subsection \<open>C10: refreshing a key at capacity\<close>

text \<open>
  C10 says that a \<^verbatim>\<open>setCachedValue\<close> for a key already in a full cache still
  runs the scan and evicts the oldest entry, so that another key can leave the cache.
  The capacity test indeed does not look at the key, and where an entry is strictly
  older than the reading of the write the oldest entry is evicted
  (\<open>setCachedValue_updater_evicts_at_capacity\<close>): the refresh of \<^verbatim>\<open>"A"\<close> at 1001
  evicts \<^verbatim>\<open>"B"\<close>, written at 999 (second equation). But with \<^verbatim>\<open>"A"\<close> and
  \<^verbatim>\<open>"B"\<close> both written at 1000 and \<^verbatim>\<open>"B"\<close> refreshed at the same reading, the
  scan finds no candidate: \<^verbatim>\<open>"A"\<close>, the oldest entry and the first on the tie, is
  not evicted, and the cache holds \<^verbatim>\<open>"A"\<close> and \<^verbatim>\<open>"B"\<close> where the claim leaves
  \<^verbatim>\<open>"B"\<close> alone (first equation). It is the defect of C1.
\<close>

theorem refresh_at_capacity_same_reading:
  "setCachedValue_updater 2 1000 ''B'' ''21'' None
       [(''A'', \<lparr>value' = ''10'', timestamp = 1000, error = None\<rparr>),
        (''B'', \<lparr>value' = ''20'', timestamp = 1000, error = None\<rparr>)]
     = [(''A'', \<lparr>value' = ''10'', timestamp = 1000, error = None\<rparr>),
        (''B'', \<lparr>value' = ''21'', timestamp = 1000, error = None\<rparr>)]
   \<and> setCachedValue_updater 2 1001 ''A'' ''11'' None
       [(''A'', \<lparr>value' = ''10'', timestamp = 1000, error = None\<rparr>),
        (''B'', \<lparr>value' = ''20'', timestamp = 999, error = None\<rparr>)]
     = [(''A'', \<lparr>value' = ''11'', timestamp = 1001, error = None\<rparr>)]"
  by (simp add: setCachedValue_updater_def evictOldest_def)

end
